theory Spec2Isabelle
  imports Main "HOL-Library.Sublist" "HOL-Library.Word" "HOL-Library.AList"
begin

section \<open>Go strings\<close>

text \<open>
  A Go \<open>string\<close> is a sequence of bytes; it is modelled as \<open>string\<close> (a list of
  8-bit characters). Lengths and indices count bytes, as \<open>len\<close> and slicing do in Go.
  The functions of package \<open>strings\<close> that \<open>xml_bridge.go\<close> calls are modelled under
  their own names; \<open>-1\<close> ("not found") is \<open>None\<close>.
\<close>

definition HasPrefix :: "string \<Rightarrow> string \<Rightarrow> bool" where
  "HasPrefix s p = prefix p s"

text \<open>\<open>strings.Index(s, sub)\<close>: the first index at which \<open>sub\<close> occurs in \<open>s\<close>.\<close>

fun Index :: "string \<Rightarrow> string \<Rightarrow> nat option" where
  "Index [] sub = (if sub = [] then Some 0 else None)"
| "Index (c # s) sub =
     (if prefix sub (c # s) then Some 0 else map_option Suc (Index s sub))"

text \<open>\<open>strings.LastIndex(s, sub)\<close>: the last index at which \<open>sub\<close> occurs in \<open>s\<close>.\<close>

definition LastIndex :: "string \<Rightarrow> string \<Rightarrow> nat option" where
  "LastIndex s sub =
     (case Index (rev s) (rev sub) of
        None \<Rightarrow> None
      | Some j \<Rightarrow> Some (length s - j - length sub))"

text \<open>
  \<open>strings.TrimSpace\<close> removes leading and trailing Unicode white space. Go decodes
  the string as UTF-8; the white space runes (\<open>unicode.IsSpace\<close>) are the six ASCII
  ones and U+0085, U+00A0, U+1680, U+2000 to U+200A, U+2028, U+2029, U+202F, U+205F,
  U+3000, listed here by their UTF-8 encodings. No encoding is a prefix or a suffix of
  another, and a string begins (ends) with one of them exactly when its first (last)
  rune decodes to that rune.
\<close>

definition space_runes :: "string list" where
  "space_runes =
     [[CHR 0x09], [CHR 0x0A], [CHR 0x0B], [CHR 0x0C], [CHR 0x0D], [CHR 0x20],
      [CHR 0xC2, CHR 0x85], [CHR 0xC2, CHR 0xA0],
      [CHR 0xE1, CHR 0x9A, CHR 0x80],
      [CHR 0xE2, CHR 0x80, CHR 0x80], [CHR 0xE2, CHR 0x80, CHR 0x81],
      [CHR 0xE2, CHR 0x80, CHR 0x82], [CHR 0xE2, CHR 0x80, CHR 0x83],
      [CHR 0xE2, CHR 0x80, CHR 0x84], [CHR 0xE2, CHR 0x80, CHR 0x85],
      [CHR 0xE2, CHR 0x80, CHR 0x86], [CHR 0xE2, CHR 0x80, CHR 0x87],
      [CHR 0xE2, CHR 0x80, CHR 0x88], [CHR 0xE2, CHR 0x80, CHR 0x89],
      [CHR 0xE2, CHR 0x80, CHR 0x8A],
      [CHR 0xE2, CHR 0x80, CHR 0xA8], [CHR 0xE2, CHR 0x80, CHR 0xA9],
      [CHR 0xE2, CHR 0x80, CHR 0xAF], [CHR 0xE2, CHR 0x81, CHR 0x9F],
      [CHR 0xE3, CHR 0x80, CHR 0x80]]"

text \<open>The number of bytes of the white space rune a string begins with; 0 if none.\<close>

definition leading_space :: "string list \<Rightarrow> string \<Rightarrow> nat" where
  "leading_space runes s =
     (case find (\<lambda>e. e \<noteq> [] \<and> prefix e s) runes of
        None \<Rightarrow> 0
      | Some e \<Rightarrow> length e)"

function TrimLeft :: "string list \<Rightarrow> string \<Rightarrow> string" where
  "TrimLeft runes s =
     (if leading_space runes s = 0 then s
      else TrimLeft runes (drop (leading_space runes s) s))"
  by pat_completeness auto

lemma leading_space_le: "leading_space runes s \<le> length s"
  by (auto simp: leading_space_def find_Some_iff prefix_length_le split: option.splits)

termination TrimLeft
proof (relation "measure (\<lambda>(runes, s). length s)")
  fix runes :: "string list" and s :: string
  assume "leading_space runes s \<noteq> 0"
  with leading_space_le [of runes s]
  show "((runes, drop (leading_space runes s) s), (runes, s))
          \<in> measure (\<lambda>(runes, s). length s)"
    by (cases s) auto
qed simp

declare TrimLeft.simps [simp del]

definition TrimSpace :: "string \<Rightarrow> string" where
  "TrimSpace s =
     rev (TrimLeft (map rev space_runes) (rev (TrimLeft space_runes s)))"

text \<open>
  \<open>strings.ToLower\<close>, modelled on the ASCII letters: \<open>A\<close> to \<open>Z\<close> become \<open>a\<close> to
  \<open>z\<close>, every other byte is kept.
\<close>

definition lower_byte :: "char \<Rightarrow> char" where
  "lower_byte c =
     (if (65::nat) \<le> of_char c \<and> of_char c \<le> (90::nat)
      then char_of (of_char c + (32::nat)) else c)"

definition ToLower :: "string \<Rightarrow> string" where
  "ToLower s = map lower_byte s"

section \<open>The feature toggle\<close>

text \<open>
  The process environment is a map from variable names to values; \<open>os.Getenv\<close>
  returns the empty string for a variable that is not set.
\<close>

type_synonym environ = "string \<rightharpoonup> string"

definition Getenv :: "environ \<Rightarrow> string \<Rightarrow> string" where
  "Getenv env k = (case env k of None \<Rightarrow> [] | Some v \<Rightarrow> v)"

definition MCP_XML_ENV :: string where
  "MCP_XML_ENV = ''AG2API_MCP_XML_ENABLED''"

definition IsMcpXmlEnabled :: "environ \<Rightarrow> bool" where
  "IsMcpXmlEnabled env =
     (let raw = Getenv env MCP_XML_ENV in
      if raw = [] then True
      else
        (let v = ToLower (TrimSpace raw) in
         v \<noteq> ''0'' \<and> v \<noteq> ''false'' \<and> v \<noteq> ''no'' \<and> v \<noteq> ''off''))"

text \<open>
  The reading of the specification: a value disables the subsystem when it is, up to
  the case of its letters, one of the four strings.
\<close>

definition equal_fold :: "string \<Rightarrow> string \<Rightarrow> bool" where
  "equal_fold a b = (map lower_byte a = map lower_byte b)"

definition spec_disabling_value :: "string \<Rightarrow> bool" where
  "spec_disabling_value v =
     (equal_fold v ''0'' \<or> equal_fold v ''false'' \<or> equal_fold v ''no'' \<or> equal_fold v ''off'')"

section \<open>Invocation identifiers\<close>

text \<open>
  \<open>mcpToolUseIDCounter\<close> is a package-level \<open>uint64\<close>; \<open>atomic.AddUint64\<close> adds 1
  to it, wrapping around at \<open>2 ^ 64\<close>, and returns the new value. The counter is passed
  in and returned. \<open>%d\<close> prints the unsigned value in decimal.
\<close>

type_synonym counter = "64 word"

definition digit_char :: "nat \<Rightarrow> char" where
  "digit_char d = char_of (48 + d)"

fun decimal :: "nat \<Rightarrow> string" where
  "decimal n = (if n < 10 then [digit_char n] else decimal (n div 10) @ [digit_char (n mod 10)])"

declare decimal.simps [simp del]

definition MakeToolUseID :: "counter \<Rightarrow> string \<Rightarrow> string \<times> counter" where
  "MakeToolUseID ctr name = (name @ ''-'' @ decimal (unat (ctr + 1)), ctr + 1)"

text \<open>\<open>N\<close> successive calls, one per name of the list, from a given counter value.\<close>

fun mint_all :: "counter \<Rightarrow> string list \<Rightarrow> string list" where
  "mint_all ctr [] = []"
| "mint_all ctr (name # names) =
     (case MakeToolUseID ctr name of (ident, ctr') \<Rightarrow> ident # mint_all ctr' names)"

section \<open>UTF-8\<close>

text \<open>
  \<open>utf8.DecodeRuneInString\<close> returns the rune a string begins with and its width in
  bytes, or \<open>(RuneError, 1)\<close> when the bytes are not a well-formed encoding (a stray
  continuation byte, a truncated or overlong sequence, a surrogate, a value above
  U+10FFFF). \<open>rune_width\<close> is that width, with 0 for the ill-formed case.
\<close>

definition cont_byte :: "nat \<Rightarrow> nat \<Rightarrow> char \<Rightarrow> bool" where
  "cont_byte lo hi c = (lo \<le> (of_char c :: nat) \<and> (of_char c :: nat) \<le> hi)"

fun rune_width :: "string \<Rightarrow> nat" where
  "rune_width [] = 0"
| "rune_width (c # s) =
     (let b = (of_char c :: nat) in
      if b < 0x80 then 1
      else if 0xC2 \<le> b \<and> b \<le> 0xDF then
        (case s of c1 # _ \<Rightarrow> if cont_byte 0x80 0xBF c1 then 2 else 0 | _ \<Rightarrow> 0)
      else if 0xE0 \<le> b \<and> b \<le> 0xEF then
        (case s of
           c1 # c2 # _ \<Rightarrow>
             if cont_byte (if b = 0xE0 then 0xA0 else 0x80) (if b = 0xED then 0x9F else 0xBF) c1
                \<and> cont_byte 0x80 0xBF c2
             then 3 else 0
         | _ \<Rightarrow> 0)
      else if 0xF0 \<le> b \<and> b \<le> 0xF4 then
        (case s of
           c1 # c2 # c3 # _ \<Rightarrow>
             if cont_byte (if b = 0xF0 then 0x90 else 0x80) (if b = 0xF4 then 0x8F else 0xBF) c1
                \<and> cont_byte 0x80 0xBF c2 \<and> cont_byte 0x80 0xBF c3
             then 4 else 0
         | _ \<Rightarrow> 0)
      else 0)"

lemma rune_width_le: "rune_width s \<le> length s"
  by (cases s) (auto simp: Let_def split: list.splits)

text \<open>\<open>utf8.ValidString\<close>: every rune of the string decodes.\<close>

function ValidString :: "string \<Rightarrow> bool" where
  "ValidString s =
     (if s = [] then True
      else if rune_width s = 0 then False
      else ValidString (drop (rune_width s) s))"
  by pat_completeness auto

termination ValidString
proof (relation "measure length")
  fix s :: string
  assume "s \<noteq> []" "rune_width s \<noteq> 0"
  then show "(drop (rune_width s) s, s) \<in> measure length"
    by (cases s) auto
qed simp

declare ValidString.simps [simp del]

text \<open>\<open>utf8.EncodeRune\<close> for a code point that is not a surrogate.\<close>

definition byte :: "nat \<Rightarrow> char" where
  "byte n = char_of n"

definition EncodeRune :: "nat \<Rightarrow> string" where
  "EncodeRune r =
     (if r < 0x80 then [byte r]
      else if r < 0x800 then [byte (0xC0 + r div 64), byte (0x80 + r mod 64)]
      else if r < 0x10000 then
        [byte (0xE0 + r div 4096), byte (0x80 + r div 64 mod 64), byte (0x80 + r mod 64)]
      else
        [byte (0xF0 + r div 262144), byte (0x80 + r div 4096 mod 64),
         byte (0x80 + r div 64 mod 64), byte (0x80 + r mod 64)])"

definition ReplacementChar :: nat where
  "ReplacementChar = 0xFFFD"

section \<open>Decoding JSON into a map\<close>

text \<open>
  \<open>json.Unmarshal(data, &parsed)\<close> with \<open>parsed\<close> a nil \<open>map[string]interface{}\<close>
  first checks the syntax of \<open>data\<close> with the scanner of \<open>encoding/json\<close>, a state
  machine that reads one byte at a time and keeps a stack of the open objects and
  arrays, and then stores the value. The model follows the scanner state by state
  (\<open>stateBeginValue\<close>, \<open>stateEndValue\<close>, ...) and builds the value on the way.

  A decoded value is a \<open>json\<close> tree. A number carries its literal (Go converts it to
  \<open>float64\<close>; the model keeps the text and only decides whether the conversion
  overflows, which is an error). An object carries its members as an association list
  in which a repeated key keeps its last value (a Go map has no order).
\<close>

datatype json =
    JNull
  | JBool bool
  | JNumber string
  | JString string
  | JArray "json list"
  | JObject "(string \<times> json) list"

subsection \<open>String literals\<close>

definition hex_val :: "char \<Rightarrow> nat" where
  "hex_val c =
     (let b = (of_char c :: nat) in
      if 48 \<le> b \<and> b \<le> 57 then b - 48
      else if 97 \<le> b \<and> b \<le> 102 then b - 87
      else if 65 \<le> b \<and> b \<le> 70 then b - 55
      else 0)"

definition is_hex :: "char \<Rightarrow> bool" where
  "is_hex c =
     (let b = (of_char c :: nat) in
      (48 \<le> b \<and> b \<le> 57) \<or> (97 \<le> b \<and> b \<le> 102) \<or> (65 \<le> b \<and> b \<le> 70))"

text \<open>\<open>getu4\<close>: the value of a leading \<open>\uXXXX\<close>, if the string begins with one.\<close>

fun getu4 :: "string \<Rightarrow> nat option" where
  "getu4 (b # u # h1 # h2 # h3 # h4 # _) =
     (if b = CHR 0x5C \<and> u = CHR ''u'' \<and> is_hex h1 \<and> is_hex h2 \<and> is_hex h3 \<and> is_hex h4
      then Some (((hex_val h1 * 16 + hex_val h2) * 16 + hex_val h3) * 16 + hex_val h4)
      else None)"
| "getu4 _ = None"

definition IsSurrogate :: "nat \<Rightarrow> bool" where
  "IsSurrogate r = (0xD800 \<le> r \<and> r < 0xE000)"

text \<open>\<open>utf16.DecodeRune\<close>: the code point of a surrogate pair, U+FFFD if it is none.\<close>

definition utf16_DecodeRune :: "nat \<Rightarrow> nat \<Rightarrow> nat" where
  "utf16_DecodeRune r1 r2 =
     (if 0xD800 \<le> r1 \<and> r1 < 0xDC00 \<and> 0xDC00 \<le> r2 \<and> r2 < 0xE000
      then (r1 - 0xD800) * 1024 + (r2 - 0xDC00) + 0x10000
      else ReplacementChar)"

definition simple_escape :: "char \<Rightarrow> char" where
  "simple_escape c =
     (if c = CHR ''b'' then CHR 0x08
      else if c = CHR ''f'' then CHR 0x0C
      else if c = CHR ''n'' then CHR 0x0A
      else if c = CHR ''r'' then CHR 0x0D
      else if c = CHR ''t'' then CHR 0x09
      else c)"

text \<open>
  \<open>unquote\<close>, on the bytes between the quotes of a literal the scanner has accepted:
  escapes are replaced, a surrogate pair of \<open>\u\<close> escapes becomes one rune, a lone
  surrogate and every ill-formed byte become U+FFFD.
\<close>

function unquote :: "string \<Rightarrow> string" where
  "unquote s =
     (case s of
        [] \<Rightarrow> []
      | c # t \<Rightarrow>
          if c = CHR 0x5C then
            (case t of
               [] \<Rightarrow> []
             | e # t' \<Rightarrow>
                 if e = CHR ''u'' then
                   (case getu4 s of
                      None \<Rightarrow> []
                    | Some rr \<Rightarrow>
                        if IsSurrogate rr then
                          (case getu4 (drop 6 s) of
                             None \<Rightarrow> EncodeRune ReplacementChar @ unquote (drop 6 s)
                           | Some rr1 \<Rightarrow>
                               if utf16_DecodeRune rr rr1 \<noteq> ReplacementChar
                               then EncodeRune (utf16_DecodeRune rr rr1) @ unquote (drop 12 s)
                               else EncodeRune ReplacementChar @ unquote (drop 6 s))
                        else EncodeRune rr @ unquote (drop 6 s))
                 else simple_escape e # unquote t')
          else if rune_width s = 0 then EncodeRune ReplacementChar @ unquote t
          else take (rune_width s) s @ unquote (drop (rune_width s) s))"
  by pat_completeness auto

termination unquote
  by (relation "measure length") auto

declare unquote.simps [simp del]

subsection \<open>Number literals\<close>

definition is_digit :: "char \<Rightarrow> bool" where
  "is_digit c = (48 \<le> (of_char c :: nat) \<and> (of_char c :: nat) \<le> 57)"

definition digits_val :: "string \<Rightarrow> int" where
  "digits_val ds = foldl (\<lambda>n c. 10 * n + ((of_char c :: int) - 48)) 0 ds"

text \<open>
  \<open>strconv.ParseFloat(s, 64)\<close> fails, with a range error, exactly on a literal whose
  value rounds to infinity: one of magnitude at least \<open>2 ^ 1024 - 2 ^ 970\<close>, half way
  between the largest \<open>float64\<close> and \<open>2 ^ 1024\<close> (\<open>float64_bound\<close>, written out in
  decimal). The literal is
  \<open>-? digits (. digits)? ([eE] [+-]? digits)?\<close>, as the scanner has checked.
\<close>

definition float64_bound :: int where
  "float64_bound =
     179769313486231580793728971405303415079934132710037826936173778980444968292764750946649017977587207096330286416692887910946555547851940402630657488671505820681908902000708383676273854845817711531764475730270069855571366959622842914819860834936475292719074168444365510704342711559699508093042880177904174497792"

lemma float64_bound_eq: "float64_bound = 2 ^ 1024 - 2 ^ 970"
  by (simp add: float64_bound_def)

definition float64_overflows :: "string \<Rightarrow> bool" where
  "float64_overflows lit =
     (let body = (case lit of c # t \<Rightarrow> if c = CHR ''-'' then t else lit | [] \<Rightarrow> []);
          ip = takeWhile is_digit body;
          r1 = dropWhile is_digit body;
          fp = (case r1 of c # t \<Rightarrow> if c = CHR ''.'' then takeWhile is_digit t else [] | [] \<Rightarrow> []);
          r2 = (case r1 of c # t \<Rightarrow> if c = CHR ''.'' then dropWhile is_digit t else r1 | [] \<Rightarrow> []);
          ex = (case r2 of
                  [] \<Rightarrow> (0::int)
                | _ # t \<Rightarrow>
                    (case t of
                       [] \<Rightarrow> 0
                     | sg # ds \<Rightarrow>
                         if sg = CHR ''-'' then - digits_val ds
                         else if sg = CHR ''+'' then digits_val ds
                         else digits_val t));
          mant = digits_val (ip @ fp);
          exp10 = ex - int (length fp);
          bound = float64_bound
      in if 0 \<le> exp10 then bound \<le> mant * 10 ^ nat exp10
         else bound * 10 ^ nat (- exp10) \<le> mant)"

subsection \<open>The scanner\<close>

datatype step =
    stateBeginValue | stateBeginValueOrEmpty | stateBeginStringOrEmpty | stateBeginString
  | stateEndValue | stateEndTop
  | stateInString | stateInStringEsc | stateInStringEscU | stateInStringEscU1
  | stateInStringEscU12 | stateInStringEscU123
  | stateNeg | state1 | state0 | stateDot | stateDot0 | stateE | stateESign | stateE0
  | stateT | stateTr | stateTru | stateF | stateFa | stateFal | stateFals
  | stateN | stateNu | stateNul

datatype parse_state = parseObjectKey | parseObjectValue | parseArrayValue

text \<open>
  An entry of the scanner's stack \<open>parseState\<close>, with what has been read of the object
  or array it stands for: the members so far and the key whose value is awaited, or
  the elements so far.
\<close>

record frame =
  ps :: parse_state
  members :: "(string \<times> json) list"
  pending_key :: string
  elems :: "json list"

record scanner =
  step :: step
  parseState :: "frame list"
  endTop :: bool
  lit :: string
  top :: "json option"
  range_error :: bool

definition maxNestingDepth :: nat where
  "maxNestingDepth = 10000"

definition isSpace :: "char \<Rightarrow> bool" where
  "isSpace c = (c = CHR '' '' \<or> c = CHR 0x09 \<or> c = CHR 0x0D \<or> c = CHR 0x0A)"

definition scanner_reset :: scanner where
  "scanner_reset =
     \<lparr>step = stateBeginValue, parseState = [], endTop = False, lit = [], top = None,
      range_error = False\<rparr>"

text \<open>A value is complete: it is the top-level value, a key, a member or an element.\<close>

definition put_value :: "json \<Rightarrow> scanner \<Rightarrow> scanner" where
  "put_value v s =
     (case parseState s of
        [] \<Rightarrow> s\<lparr>top := Some v\<rparr>
      | f # fs \<Rightarrow>
          (case ps f of
             parseObjectKey \<Rightarrow>
               s\<lparr>parseState := f\<lparr>pending_key := (case v of JString k \<Rightarrow> k | _ \<Rightarrow> [])\<rparr> # fs\<rparr>
           | parseObjectValue \<Rightarrow>
               s\<lparr>parseState := f\<lparr>members := AList.update (pending_key f) v (members f)\<rparr> # fs\<rparr>
           | parseArrayValue \<Rightarrow>
               s\<lparr>parseState := f\<lparr>elems := elems f @ [v]\<rparr> # fs\<rparr>))"

definition put_number :: "scanner \<Rightarrow> scanner" where
  "put_number s =
     put_value (JNumber (lit s))
       (s\<lparr>range_error := (range_error s \<or> float64_overflows (lit s))\<rparr>)"

definition pushParseState :: "parse_state \<Rightarrow> scanner \<Rightarrow> scanner option" where
  "pushParseState newParseState s =
     (if Suc (length (parseState s)) \<le> maxNestingDepth
      then Some (s\<lparr>parseState :=
             \<lparr>ps = newParseState, members = [], pending_key = [], elems = []\<rparr> # parseState s\<rparr>)
      else None)"

definition popParseState :: "scanner \<Rightarrow> scanner" where
  "popParseState s =
     (case parseState s of
        [] \<Rightarrow> s
      | f # fs \<Rightarrow>
          (let v = (if ps f = parseArrayValue then JArray (elems f) else JObject (members f));
               s' = put_value v (s\<lparr>parseState := fs\<rparr>)
           in if fs = [] then s'\<lparr>step := stateEndTop, endTop := True\<rparr>
              else s'\<lparr>step := stateEndValue\<rparr>))"

definition do_stateEndTop :: "scanner \<Rightarrow> char \<Rightarrow> scanner option" where
  "do_stateEndTop s c = (if isSpace c then Some s else None)"

definition do_stateEndValue :: "scanner \<Rightarrow> char \<Rightarrow> scanner option" where
  "do_stateEndValue s c =
     (case parseState s of
        [] \<Rightarrow> do_stateEndTop (s\<lparr>step := stateEndTop, endTop := True\<rparr>) c
      | f # fs \<Rightarrow>
          if isSpace c then Some (s\<lparr>step := stateEndValue\<rparr>)
          else
            (case ps f of
               parseObjectKey \<Rightarrow>
                 if c = CHR '':'' then
                   Some (s\<lparr>parseState := f\<lparr>ps := parseObjectValue\<rparr> # fs, step := stateBeginValue\<rparr>)
                 else None
             | parseObjectValue \<Rightarrow>
                 if c = CHR '','' then
                   Some (s\<lparr>parseState := f\<lparr>ps := parseObjectKey\<rparr> # fs, step := stateBeginString\<rparr>)
                 else if c = CHR ''}'' then Some (popParseState s)
                 else None
             | parseArrayValue \<Rightarrow>
                 if c = CHR '','' then Some (s\<lparr>step := stateBeginValue\<rparr>)
                 else if c = CHR '']'' then Some (popParseState s)
                 else None))"

definition do_stateBeginValue :: "scanner \<Rightarrow> char \<Rightarrow> scanner option" where
  "do_stateBeginValue s c =
     (if isSpace c then Some s
      else if c = CHR ''{'' then pushParseState parseObjectKey (s\<lparr>step := stateBeginStringOrEmpty\<rparr>)
      else if c = CHR ''['' then pushParseState parseArrayValue (s\<lparr>step := stateBeginValueOrEmpty\<rparr>)
      else if c = CHR 0x22 then Some (s\<lparr>step := stateInString, lit := []\<rparr>)
      else if c = CHR ''-'' then Some (s\<lparr>step := stateNeg, lit := [c]\<rparr>)
      else if c = CHR ''0'' then Some (s\<lparr>step := state0, lit := [c]\<rparr>)
      else if c = CHR ''t'' then Some (s\<lparr>step := stateT\<rparr>)
      else if c = CHR ''f'' then Some (s\<lparr>step := stateF\<rparr>)
      else if c = CHR ''n'' then Some (s\<lparr>step := stateN\<rparr>)
      else if is_digit c then Some (s\<lparr>step := state1, lit := [c]\<rparr>)
      else None)"

definition do_stateBeginString :: "scanner \<Rightarrow> char \<Rightarrow> scanner option" where
  "do_stateBeginString s c =
     (if isSpace c then Some s
      else if c = CHR 0x22 then Some (s\<lparr>step := stateInString, lit := []\<rparr>)
      else None)"

definition more :: "step \<Rightarrow> scanner \<Rightarrow> char \<Rightarrow> scanner option" where
  "more st s c = Some (s\<lparr>step := st, lit := lit s @ [c]\<rparr>)"

definition do_state0 :: "scanner \<Rightarrow> char \<Rightarrow> scanner option" where
  "do_state0 s c =
     (if c = CHR ''.'' then more stateDot s c
      else if c = CHR ''e'' \<or> c = CHR ''E'' then more stateE s c
      else do_stateEndValue (put_number s) c)"

definition do_stateESign :: "scanner \<Rightarrow> char \<Rightarrow> scanner option" where
  "do_stateESign s c = (if is_digit c then more stateE0 s c else None)"

text \<open>One byte: the step function the scanner is in, applied to it.\<close>

definition scan_step :: "scanner \<Rightarrow> char \<Rightarrow> scanner option" where
  "scan_step s c =
     (case step s of
        stateBeginValue \<Rightarrow> do_stateBeginValue s c
      | stateBeginValueOrEmpty \<Rightarrow>
          if isSpace c then Some s
          else if c = CHR '']'' then do_stateEndValue s c
          else do_stateBeginValue s c
      | stateBeginStringOrEmpty \<Rightarrow>
          if isSpace c then Some s
          else if c = CHR ''}'' then
            (case parseState s of
               [] \<Rightarrow> None
             | f # fs \<Rightarrow> do_stateEndValue (s\<lparr>parseState := f\<lparr>ps := parseObjectValue\<rparr> # fs\<rparr>) c)
          else do_stateBeginString s c
      | stateBeginString \<Rightarrow> do_stateBeginString s c
      | stateEndValue \<Rightarrow> do_stateEndValue s c
      | stateEndTop \<Rightarrow> do_stateEndTop s c
      | stateInString \<Rightarrow>
          if c = CHR 0x22 then
            Some (put_value (JString (unquote (lit s))) (s\<lparr>step := stateEndValue\<rparr>))
          else if c = CHR 0x5C then more stateInStringEsc s c
          else if (of_char c :: nat) < 0x20 then None
          else more stateInString s c
      | stateInStringEsc \<Rightarrow>
          if c \<in> set ''bfnrt/'' \<or> c = CHR 0x5C \<or> c = CHR 0x22 then more stateInString s c
          else if c = CHR ''u'' then more stateInStringEscU s c
          else None
      | stateInStringEscU \<Rightarrow> if is_hex c then more stateInStringEscU1 s c else None
      | stateInStringEscU1 \<Rightarrow> if is_hex c then more stateInStringEscU12 s c else None
      | stateInStringEscU12 \<Rightarrow> if is_hex c then more stateInStringEscU123 s c else None
      | stateInStringEscU123 \<Rightarrow> if is_hex c then more stateInString s c else None
      | stateNeg \<Rightarrow>
          if c = CHR ''0'' then more state0 s c
          else if is_digit c then more state1 s c
          else None
      | state1 \<Rightarrow> if is_digit c then more state1 s c else do_state0 s c
      | state0 \<Rightarrow> do_state0 s c
      | stateDot \<Rightarrow> if is_digit c then more stateDot0 s c else None
      | stateDot0 \<Rightarrow>
          if is_digit c then more stateDot0 s c
          else if c = CHR ''e'' \<or> c = CHR ''E'' then more stateE s c
          else do_stateEndValue (put_number s) c
      | stateE \<Rightarrow>
          if c = CHR ''+'' \<or> c = CHR ''-'' then more stateESign s c
          else do_stateESign s c
      | stateESign \<Rightarrow> do_stateESign s c
      | stateE0 \<Rightarrow>
          if is_digit c then more stateE0 s c
          else do_stateEndValue (put_number s) c
      | stateT \<Rightarrow> if c = CHR ''r'' then Some (s\<lparr>step := stateTr\<rparr>) else None
      | stateTr \<Rightarrow> if c = CHR ''u'' then Some (s\<lparr>step := stateTru\<rparr>) else None
      | stateTru \<Rightarrow>
          if c = CHR ''e'' then Some (put_value (JBool True) (s\<lparr>step := stateEndValue\<rparr>))
          else None
      | stateF \<Rightarrow> if c = CHR ''a'' then Some (s\<lparr>step := stateFa\<rparr>) else None
      | stateFa \<Rightarrow> if c = CHR ''l'' then Some (s\<lparr>step := stateFal\<rparr>) else None
      | stateFal \<Rightarrow> if c = CHR ''s'' then Some (s\<lparr>step := stateFals\<rparr>) else None
      | stateFals \<Rightarrow>
          if c = CHR ''e'' then Some (put_value (JBool False) (s\<lparr>step := stateEndValue\<rparr>))
          else None
      | stateN \<Rightarrow> if c = CHR ''u'' then Some (s\<lparr>step := stateNu\<rparr>) else None
      | stateNu \<Rightarrow> if c = CHR ''l'' then Some (s\<lparr>step := stateNul\<rparr>) else None
      | stateNul \<Rightarrow>
          if c = CHR ''l'' then Some (put_value JNull (s\<lparr>step := stateEndValue\<rparr>))
          else None)"

text \<open>\<open>checkValid\<close>: every byte in turn, then \<open>eof\<close>; \<open>None\<close> is a syntax error.\<close>

fun scan_bytes :: "scanner \<Rightarrow> string \<Rightarrow> scanner option" where
  "scan_bytes s [] = Some s"
| "scan_bytes s (c # data) =
     (case scan_step s c of None \<Rightarrow> None | Some s' \<Rightarrow> scan_bytes s' data)"

definition scanner_eof :: "scanner \<Rightarrow> scanner option" where
  "scanner_eof s =
     (if endTop s then Some s
      else
        (case scan_step s (CHR '' '') of
           None \<Rightarrow> None
         | Some s' \<Rightarrow> if endTop s' then Some s' else None))"

definition checkValid :: "string \<Rightarrow> scanner option" where
  "checkValid data =
     (case scan_bytes scanner_reset data of None \<Rightarrow> None | Some s \<Rightarrow> scanner_eof s)"

text \<open>The value of a well-formed document.\<close>

definition json_value :: "string \<Rightarrow> json option" where
  "json_value data = (case checkValid data of None \<Rightarrow> None | Some s \<Rightarrow> top s)"

text \<open>
  The argument mapping of a call: \<open>None\<close> is Go's nil map, \<open>Some kvs\<close> a map with the
  entries \<open>kvs\<close>.
\<close>

type_synonym input_map = "(string \<times> json) list option"

text \<open>
  \<open>json.Unmarshal\<close> into a nil \<open>map[string]interface{}\<close>: \<open>Inl ()\<close> is a non-nil
  error. A syntax error is one; so is a top-level value that is neither an object
  nor \<open>null\<close> (it cannot be stored in a map), and a number out of the range of
  \<open>float64\<close>. \<open>null\<close> is no error and leaves the map nil.
\<close>

definition Unmarshal :: "string \<Rightarrow> unit + input_map" where
  "Unmarshal data =
     (case checkValid data of
        None \<Rightarrow> Inl ()
      | Some s \<Rightarrow>
          (case top s of
             Some (JObject kvs) \<Rightarrow> if range_error s then Inl () else Inr (Some kvs)
           | Some JNull \<Rightarrow> Inr None
           | _ \<Rightarrow> Inl ()))"

section \<open>Decoding one element\<close>

text \<open>
  A Go panic is a value of type \<open>panic\<close>. Two can arise in
  \<open>TryParseMcpToolCallXml\<close>: \<open>regexp.MustCompile\<close> panics on a pattern that does not
  compile, and a slice expression \<open>s[a:b]\<close> panics when \<open>a > b\<close>.
\<close>

datatype panic =
    RegexpCompileError string
  | SliceBoundsOutOfRange nat nat

record McpToolCall =
  Name :: string
  Input :: input_map
  ID :: string

text \<open>The class \<open>\s\<close> of Go's regular expressions: tab, LF, FF, CR and space.\<close>

definition re_space :: "char \<Rightarrow> bool" where
  "re_space c =
     (c = CHR 0x09 \<or> c = CHR 0x0A \<or> c = CHR 0x0C \<or> c = CHR 0x0D \<or> c = CHR '' '')"

text \<open>
  The two patterns are built from the tool name, which \<open>regexp.QuoteMeta\<close> turns into
  a literal. The parser of \<open>regexp/syntax\<close> refuses a pattern that is not well-formed
  UTF-8, so the patterns compile exactly when the name is well-formed (the rest of
  each pattern is fixed ASCII text).
\<close>

definition patterns_compile :: "string \<Rightarrow> bool" where
  "patterns_compile toolName = ValidString toolName"

text \<open>
  \<open>openPattern.FindStringIndex\<close> for \<open>^\s*<NAME(\s[^>]*)?>\<close>: the end of the match
  (its start is 0). After the white space and \<open><NAME\<close>, either a white space byte
  follows and the match runs to the first \<open>>\<close>, or \<open>>\<close> follows at once. Matching is
  modelled on bytes. Go matches runes and reads an ill-formed byte of the text as
  U+FFFD, so for a name that holds U+FFFD the opening pattern also matches texts in
  which an ill-formed byte stands for it; a text that begins with the bytes of the
  name itself, as every text handed over by \<open>PushText\<close> does, is matched the same
  way by both. The limit of \<open>regexp/syntax\<close> on the size of a pattern (names of
  millions of bytes) is not modelled.
\<close>

definition openPattern_end :: "string \<Rightarrow> string \<Rightarrow> nat option" where
  "openPattern_end toolName xmlText =
     (let lead = length (takeWhile re_space xmlText);
          rest = drop lead xmlText;
          tag = CHR ''<'' # toolName
      in if \<not> prefix tag rest then None
         else
           (case drop (length tag) rest of
              [] \<Rightarrow> None
            | c # _ \<Rightarrow>
                if c = CHR ''>'' then Some (lead + length tag + 1)
                else if re_space c then
                  (case Index (drop (length tag) rest) ''>'' of
                     None \<Rightarrow> None
                   | Some k \<Rightarrow> Some (lead + length tag + k + 1))
                else None))"

text \<open>
  \<open>closePattern\<close> is \<open></NAME\s*>\s*$\<close>: \<open>close_here\<close> says that it matches the whole
  of a string, and \<open>closePattern_start\<close> is the start of the leftmost match in the
  text, which \<open>FindStringIndex\<close> returns.
\<close>

definition close_here :: "string \<Rightarrow> string \<Rightarrow> bool" where
  "close_here toolName s =
     (let tag = ''</'' @ toolName
      in prefix tag s \<and>
         (case dropWhile re_space (drop (length tag) s) of
            [] \<Rightarrow> False
          | c # r \<Rightarrow> c = CHR ''>'' \<and> dropWhile re_space r = []))"

fun closePattern_start :: "string \<Rightarrow> string \<Rightarrow> nat option" where
  "closePattern_start toolName [] = None"
| "closePattern_start toolName (c # s) =
     (if close_here toolName (c # s) then Some 0
      else map_option Suc (closePattern_start toolName s))"

definition TryParseMcpToolCallXml ::
  "counter \<Rightarrow> string \<Rightarrow> string \<Rightarrow> panic + (McpToolCall option \<times> counter)" where
  "TryParseMcpToolCallXml ctr xmlText toolName =
     (if toolName = [] \<or> xmlText = [] then Inr (None, ctr)
      else if \<not> patterns_compile toolName then Inl (RegexpCompileError toolName)
      else
        (case openPattern_end toolName xmlText of
           None \<Rightarrow> Inr (None, ctr)
         | Some open_end \<Rightarrow>
             (case closePattern_start toolName xmlText of
                None \<Rightarrow> Inr (None, ctr)
              | Some close_start \<Rightarrow>
                  if close_start < open_end then Inl (SliceBoundsOutOfRange open_end close_start)
                  else
                    (let inner = TrimSpace (take (close_start - open_end) (drop open_end xmlText))
                     in if inner = [] then
                          (case MakeToolUseID ctr toolName of
                             (ident, ctr') \<Rightarrow>
                               Inr (Some \<lparr>Name = toolName, Input = Some [], ID = ident\<rparr>, ctr'))
                        else
                          (case Unmarshal inner of
                             Inl _ \<Rightarrow> Inr (None, ctr)
                           | Inr parsed \<Rightarrow>
                               (case MakeToolUseID ctr toolName of
                                  (ident, ctr') \<Rightarrow>
                                    Inr (Some \<lparr>Name = toolName, Input = parsed, ID = ident\<rparr>,
                                         ctr')))))))"

section \<open>The stream parser\<close>

text \<open>
  \<open>toolNames\<close> is a Go map used as a set. The code ranges over it in three places, in
  an order Go leaves unspecified; the model keeps the names as a list and ranges over
  it in list order.
\<close>

record XmlStreamParser =
  toolNames :: "string list"
  buffer :: string

definition NewXmlStreamParser :: "string list \<Rightarrow> XmlStreamParser" where
  "NewXmlStreamParser names =
     \<lparr>toolNames = remdups (filter (\<lambda>name. name \<noteq> []) names), buffer = []\<rparr>"

text \<open>A \<open>ParseResult\<close> is of type "text" or of type "tool".\<close>

datatype ParseResult =
    Text string
  | Tool string input_map

definition boundary_char :: "char \<Rightarrow> bool" where
  "boundary_char ch =
     (ch = CHR ''>'' \<or> ch = CHR ''/'' \<or> ch = CHR '' '' \<or> ch = CHR 0x09 \<or> ch = CHR 0x0A
      \<or> ch = CHR 0x0D)"

text \<open>The body of the loop over the names, with \<open>best\<close> and \<open>bestName\<close> as one option.\<close>

fun find_start_loop ::
  "string \<Rightarrow> string list \<Rightarrow> (nat \<times> string) option \<Rightarrow> (nat \<times> string) option" where
  "find_start_loop buf [] best = best"
| "find_start_loop buf (name # names) best =
     (let opn = CHR ''<'' # name in
      case Index buf opn of
        None \<Rightarrow> find_start_loop buf names best
      | Some idx \<Rightarrow>
          if idx + length opn < length buf \<and> \<not> boundary_char (buf ! (idx + length opn))
          then find_start_loop buf names best
          else if (case best of None \<Rightarrow> True | Some (b, _) \<Rightarrow> idx < b)
          then find_start_loop buf names (Some (idx, name))
          else find_start_loop buf names best)"

definition findNextToolStartIndex :: "XmlStreamParser \<Rightarrow> (nat \<times> string) option" where
  "findNextToolStartIndex p = find_start_loop (buffer p) (toolNames p) None"

definition findCloseTagEndIndex :: "XmlStreamParser \<Rightarrow> string \<Rightarrow> nat option" where
  "findCloseTagEndIndex p name =
     (let needle = ''</'' @ name in
      case Index (buffer p) needle of
        None \<Rightarrow> None
      | Some idx \<Rightarrow>
          (let after = idx + length needle in
           if after \<ge> length (buffer p) then None
           else
             (case Index (drop after (buffer p)) ''>'' of
                None \<Rightarrow> None
              | Some gtIdx \<Rightarrow> Some (after + gtIdx + 1))))"

definition isPossibleToolTagPrefix :: "XmlStreamParser \<Rightarrow> string \<Rightarrow> bool" where
  "isPossibleToolTagPrefix p text =
     (if \<not> HasPrefix text ''<'' then False
      else list_ex (\<lambda>name. HasPrefix (CHR ''<'' # name) text \<or> HasPrefix (''</'' @ name) text)
             (toolNames p))"

definition splitBufferForPartialTag :: "XmlStreamParser \<Rightarrow> string \<times> string" where
  "splitBufferForPartialTag p =
     (case LastIndex (buffer p) ''<'' of
        None \<Rightarrow> (buffer p, [])
      | Some lastLt \<Rightarrow>
          (let tail = drop lastLt (buffer p) in
           if isPossibleToolTagPrefix p tail then (take lastLt (buffer p), tail)
           else (buffer p, [])))"

text \<open>The branch of the loop that ends it when no opening tag is found.\<close>

definition emit_and_keep ::
  "XmlStreamParser \<Rightarrow> counter \<Rightarrow> ParseResult list
     \<Rightarrow> panic + (ParseResult list \<times> XmlStreamParser \<times> counter)" where
  "emit_and_keep p ctr results =
     (case splitBufferForPartialTag p of
        (emit, keep) \<Rightarrow>
          Inr (if emit \<noteq> [] then results @ [Text emit] else results, p\<lparr>buffer := keep\<rparr>, ctr))"

lemma Index_le: "Index s sub = Some i \<Longrightarrow> i + length sub \<le> length s"
proof (induction s arbitrary: i)
  case Nil
  then show ?case by (simp split: if_splits)
next
  case (Cons c s)
  then show ?case
    by (auto split: if_splits dest: prefix_length_le)
qed

lemma findCloseTagEndIndex_bounds:
  assumes "findCloseTagEndIndex p name = Some k"
  shows "0 < k \<and> k \<le> length (buffer p)"
proof -
  from assms obtain idx gtIdx where
    i: "Index (buffer p) (''</'' @ name) = Some idx"
    and g: "Index (drop (idx + length (''</'' @ name)) (buffer p)) ''>'' = Some gtIdx"
    and k: "k = idx + length (''</'' @ name) + gtIdx + 1"
    by (auto simp: findCloseTagEndIndex_def Let_def split: option.splits if_splits)
  from Index_le [OF g] i k show ?thesis
    by simp
qed

text \<open>
  The \<open>for\<close> loop of \<open>PushText\<close>. Its state is the parser (for the buffer), the
  counter and the results so far; it ends with the three of them, or with a panic.
\<close>

function PushText_loop ::
  "XmlStreamParser \<Rightarrow> counter \<Rightarrow> ParseResult list
     \<Rightarrow> panic + (ParseResult list \<times> XmlStreamParser \<times> counter)" where
  "PushText_loop p ctr results =
     (case findNextToolStartIndex p of
        None \<Rightarrow> emit_and_keep p ctr results
      | Some (index, name) \<Rightarrow>
          if name = [] then emit_and_keep p ctr results
          else
            (let results1 =
                   (if index > 0 then results @ [Text (take index (buffer p))] else results);
                 p1 = p\<lparr>buffer := drop index (buffer p)\<rparr>
             in case findCloseTagEndIndex p1 name of
                  None \<Rightarrow> Inr (results1, p1, ctr)
                | Some closeEnd \<Rightarrow>
                    (let xml = take closeEnd (buffer p1);
                         p2 = p1\<lparr>buffer := drop closeEnd (buffer p1)\<rparr>
                     in case TryParseMcpToolCallXml ctr xml name of
                          Inl e \<Rightarrow> Inl e
                        | Inr (Some parsed, ctr') \<Rightarrow>
                            PushText_loop p2 ctr'
                              (results1 @ [Tool (Name parsed) (Input parsed)])
                        | Inr (None, ctr') \<Rightarrow>
                            PushText_loop p2 ctr' (results1 @ [Text xml]))))"
  by pat_completeness auto

termination PushText_loop
proof (relation "measure (\<lambda>(p, ctr, results). length (buffer p))")
  show "wf (measure (\<lambda>(p, ctr, results). length (buffer p)))"
    by simp
next
  fix p :: XmlStreamParser and ctr :: counter and results :: "ParseResult list"
    and x2 index name results1 p1 closeEnd xml p2 b x1 ctr' parsed
  assume "p1 = p\<lparr>buffer := drop index (buffer p)\<rparr>"
    and "findCloseTagEndIndex p1 name = Some closeEnd"
    and "p2 = p1\<lparr>buffer := drop closeEnd (buffer p1)\<rparr>"
  then show "((p2, ctr', results1 @ [Tool (Name parsed) (Input parsed)]), p, ctr, results)
      \<in> measure (\<lambda>(p, ctr, results). length (buffer p))"
    using findCloseTagEndIndex_bounds [of p1 name closeEnd] by auto
next
  fix p :: XmlStreamParser and ctr :: counter and results :: "ParseResult list"
    and x2 index name results1 p1 closeEnd xml p2 b x1 ctr'
  assume "p1 = p\<lparr>buffer := drop index (buffer p)\<rparr>"
    and "findCloseTagEndIndex p1 name = Some closeEnd"
    and "p2 = p1\<lparr>buffer := drop closeEnd (buffer p1)\<rparr>"
  then show "((p2, ctr', results1 @ [Text xml]), p, ctr, results)
      \<in> measure (\<lambda>(p, ctr, results). length (buffer p))"
    using findCloseTagEndIndex_bounds [of p1 name closeEnd] by auto
qed

declare PushText_loop.simps [simp del]

definition PushText ::
  "counter \<Rightarrow> XmlStreamParser \<Rightarrow> string
     \<Rightarrow> panic + (ParseResult list \<times> XmlStreamParser \<times> counter)" where
  "PushText ctr p text =
     (if text = [] then Inr ([], p, ctr)
      else PushText_loop (p\<lparr>buffer := buffer p @ text\<rparr>) ctr [])"

definition Flush :: "XmlStreamParser \<Rightarrow> ParseResult list \<times> XmlStreamParser" where
  "Flush p =
     (if buffer p \<noteq> [] then ([Text (buffer p)], p\<lparr>buffer := []\<rparr>) else ([], p))"

section \<open>Streams\<close>

text \<open>
  One stream: a fresh parser for the known names, the chunks pushed in order, then
  \<open>Flush\<close>. The result is every segment the calls returned, in order.
\<close>

fun push_chunks ::
  "counter \<Rightarrow> XmlStreamParser \<Rightarrow> string list
     \<Rightarrow> panic + (ParseResult list \<times> XmlStreamParser \<times> counter)" where
  "push_chunks ctr p [] = Inr ([], p, ctr)"
| "push_chunks ctr p (chunk # chunks) =
     (case PushText ctr p chunk of
        Inl e \<Rightarrow> Inl e
      | Inr (results, p', ctr') \<Rightarrow>
          (case push_chunks ctr' p' chunks of
             Inl e \<Rightarrow> Inl e
           | Inr (more_results, p'', ctr'') \<Rightarrow> Inr (results @ more_results, p'', ctr'')))"

definition run_stream :: "string list \<Rightarrow> string list \<Rightarrow> panic + ParseResult list" where
  "run_stream names chunks =
     (case push_chunks 0 (NewXmlStreamParser names) chunks of
        Inl e \<Rightarrow> Inl e
      | Inr (results, p, ctr) \<Rightarrow> Inr (results @ fst (Flush p)))"

text \<open>
  The observable output of a stream: the text of neighbouring text segments joined,
  and the tool segments, in order.
\<close>

fun observable :: "ParseResult list \<Rightarrow> ParseResult list" where
  "observable (Text a # Text b # rest) = observable (Text (a @ b) # rest)"
| "observable (r # rest) = r # observable rest"
| "observable [] = []"

section \<open>Notions of the specification\<close>

text \<open>
  The boundary rule at one index of the buffer: some known name's opening tag \<open><name\<close>
  stands there and is followed by the end of the buffer or by a boundary character.
\<close>

definition accepted_open :: "string \<Rightarrow> string \<Rightarrow> bool" where
  "accepted_open buf name =
     (prefix (CHR ''<'' # name) buf \<and>
      (length buf \<le> Suc (length name) \<or> boundary_char (buf ! Suc (length name))))"

definition opens_at :: "string list \<Rightarrow> string \<Rightarrow> nat \<Rightarrow> bool" where
  "opens_at names buf i = list_ex (accepted_open (drop i buf)) names"

text \<open>
  The locator as the specification words it: the smallest buffer index at which any
  known name opens with a valid boundary.
\<close>

definition spec_earliest_open :: "string list \<Rightarrow> string \<Rightarrow> nat option" where
  "spec_earliest_open names buf = find (opens_at names buf) [0..<length buf]"

text \<open>
  The closing tag of a name has arrived with its closing \<open>>\<close> (the comment of
  \<open>findCloseTagEndIndex\<close> calls it so): somewhere in the buffer \<open></name\<close> stands, and
  a \<open>>\<close> stands behind it. \<open>closed_at\<close> says so for one index of the buffer.
\<close>

definition closed_at :: "string \<Rightarrow> string \<Rightarrow> nat \<Rightarrow> bool" where
  "closed_at buf name i =
     (prefix (''</'' @ name) (drop i buf)
      \<and> CHR ''>'' \<in> set (drop (i + length (''</'' @ name)) buf))"

definition closing_tag_arrived :: "string \<Rightarrow> string \<Rightarrow> bool" where
  "closing_tag_arrived buf name = list_ex (closed_at buf name) [0..<length buf]"




text \<open>Names that hold none of the boundary characters.\<close>

definition plain_names :: "string list \<Rightarrow> bool" where
  "plain_names names = (\<forall>name \<in> set names. \<forall>c \<in> set name. \<not> boundary_char c)"

text \<open>
  A complete element for a tool: the opening tag, with attributes or without, the
  body, and the closing tag. Attributes begin with a white space byte and hold no
  \<open>>\<close>.
\<close>

definition element :: "string \<Rightarrow> string \<Rightarrow> string \<Rightarrow> string" where
  "element name attrs body = ''<'' @ name @ attrs @ ''>'' @ body @ ''</'' @ name @ ''>''"

definition attributes :: "string \<Rightarrow> bool" where
  "attributes attrs =
     (attrs = [] \<or> (re_space (hd attrs) \<and> CHR ''>'' \<notin> set attrs))"

text \<open>
  The payload of an element decodes to an argument mapping: an empty or white space
  only payload gives the empty mapping, any other payload is trimmed and must be JSON
  that \<open>json.Unmarshal\<close> stores in a map.
\<close>

definition decodes_to :: "string \<Rightarrow> input_map \<Rightarrow> bool" where
  "decodes_to body m =
     (if TrimSpace body = [] then m = Some [] else Unmarshal (TrimSpace body) = Inr m)"

text \<open>
  The element is closed by its own last byte: behind the first \<open></name\<close> of the
  element no \<open>>\<close> stands before the last byte of the element. (The payload may hold
  \<open></name\<close>, in a JSON string, as long as no \<open>>\<close> follows it there.)
\<close>

definition closes_at_last_byte :: "string \<Rightarrow> string \<Rightarrow> bool" where
  "closes_at_last_byte name e =
     (case Index e (''</'' @ name) of
        None \<Rightarrow> False
      | Some a \<Rightarrow> CHR ''>'' \<notin> set (butlast (drop (a + length (''</'' @ name)) e)))"

text \<open>
  No known name opens before index \<open>n\<close> of the buffer: where the opening tag of a
  known name occurs for the first time before \<open>n\<close>, the boundary rule does not accept
  it.
\<close>

definition no_opening_before :: "string list \<Rightarrow> string \<Rightarrow> nat \<Rightarrow> bool" where
  "no_opening_before names buf n =
     list_all (\<lambda>m. case Index buf (CHR ''<'' # m) of
                      None \<Rightarrow> True
                    | Some k \<Rightarrow> n \<le> k \<or> \<not> accepted_open (drop k buf) m) names"

section \<open>Properties of the identifiers\<close>

lemma of_char_digit_char: "d < 10 \<Longrightarrow> (of_char (digit_char d) :: nat) = 48 + d"
  by (simp add: digit_char_def)

lemma decimal_not_Nil: "decimal n \<noteq> []"
  by (subst decimal.simps) simp

lemma digit_char_not_dash: "d < 10 \<Longrightarrow> digit_char d \<noteq> CHR ''-''"
proof
  assume "d < 10" and "digit_char d = CHR ''-''"
  then have "(of_char (CHR ''-'') :: nat) = 48 + d"
    using of_char_digit_char [of d] by simp
  then show False by simp
qed

lemma decimal_no_dash: "c \<in> set (decimal n) \<Longrightarrow> c \<noteq> CHR ''-''"
proof (induction n rule: decimal.induct)
  case (1 n)
  show ?case
  proof (cases "n < 10")
    case True
    with "1.prems" have "c = digit_char n"
      by (simp add: decimal.simps [of n])
    with True show ?thesis
      by (simp add: digit_char_not_dash)
  next
    case False
    with "1.prems" have "c \<in> set (decimal (n div 10)) \<or> c = digit_char (n mod 10)"
      by (auto simp: decimal.simps [of n])
    then show ?thesis
    proof
      assume "c \<in> set (decimal (n div 10))"
      with False "1.IH" show ?thesis by simp
    next
      assume "c = digit_char (n mod 10)"
      then show ?thesis
        by (simp add: digit_char_not_dash)
    qed
  qed
qed

lemma digit_char_inj:
  assumes "a < 10" "b < 10" "digit_char a = digit_char b"
  shows "a = b"
proof -
  have "(of_char (digit_char a) :: nat) = of_char (digit_char b)"
    by (simp only: assms(3))
  then have "48 + a = 48 + b"
    by (simp only: of_char_digit_char [OF assms(1)] of_char_digit_char [OF assms(2)])
  then show ?thesis by simp
qed

lemma decimal_inj: "decimal m = decimal n \<Longrightarrow> m = n"
proof (induction m arbitrary: n rule: decimal.induct)
  case (1 m)
  show ?case
  proof (cases "m < 10")
    case m: True
    show ?thesis
    proof (cases "n < 10")
      case True
      with m "1.prems" show ?thesis
        by (auto simp: decimal.simps [of m] decimal.simps [of n] dest: digit_char_inj)
    next
      case False
      with m "1.prems" decimal_not_Nil [of "n div 10"] show ?thesis
        by (auto simp: decimal.simps [of m] decimal.simps [of n] Cons_eq_append_conv)
    qed
  next
    case m: False
    show ?thesis
    proof (cases "n < 10")
      case True
      with m "1.prems" decimal_not_Nil [of "m div 10"] show ?thesis
        by (auto simp: decimal.simps [of m] decimal.simps [of n] append_eq_Cons_conv)
    next
      case False
      with m "1.prems" have "decimal (m div 10) = decimal (n div 10)"
        and d: "digit_char (m mod 10) = digit_char (n mod 10)"
        by (auto simp: decimal.simps [of m] decimal.simps [of n])
      with m "1.IH" have "m div 10 = n div 10" by simp
      moreover from d have "m mod 10 = n mod 10"
        using digit_char_inj [of "m mod 10" "n mod 10"] by simp
      ultimately show ?thesis
        by (metis div_mult_mod_eq)
    qed
  qed
qed

lemma ident_number:
  assumes "a @ ''-'' @ decimal x = b @ ''-'' @ decimal y"
  shows "x = y"
proof -
  have t: "takeWhile (\<lambda>c. c \<noteq> CHR ''-'') (rev (decimal z) @ CHR ''-'' # rev w) = rev (decimal z)"
    for z w
    by (simp add: takeWhile_tail takeWhile_eq_all_conv decimal_no_dash)
  from assms have "rev (a @ ''-'' @ decimal x) = rev (b @ ''-'' @ decimal y)"
    by simp
  then have "rev (decimal x) @ CHR ''-'' # rev a = rev (decimal y) @ CHR ''-'' # rev b"
    by simp
  then have "rev (decimal x) = rev (decimal y)"
    using t [of x a] t [of y b] by simp
  then show ?thesis
    by (simp add: decimal_inj)
qed

lemma length_mint_all: "length (mint_all ctr names) = length names"
  by (induction names arbitrary: ctr) (auto simp: MakeToolUseID_def)

lemma mint_all_nth:
  "i < length names \<Longrightarrow>
   mint_all ctr names ! i = names ! i @ ''-'' @ decimal (unat (ctr + of_nat (Suc i)))"
proof (induction names arbitrary: ctr i)
  case Nil
  then show ?case by simp
next
  case (Cons name names)
  show ?case
  proof (cases i)
    case 0
    then show ?thesis by (simp add: MakeToolUseID_def)
  next
    case (Suc j)
    with Cons.prems have "j < length names" by simp
    from Cons.IH [OF this, of "ctr + 1"] Suc show ?thesis
      by (simp add: MakeToolUseID_def algebra_simps)
  qed
qed

lemma word64_of_nat_neq:
  assumes "0 < a" "a < b" "b \<le> 2 ^ 64"
  shows "(of_nat a :: 64 word) \<noteq> of_nat b"
proof
  assume "(of_nat a :: 64 word) = of_nat b"
  then have "a mod 2 ^ 64 = b mod 2 ^ 64"
    by (simp add: word_of_nat_eq_iff take_bit_eq_mod)
  moreover from assms have "a mod 2 ^ 64 = a"
    by simp
  ultimately have "b mod 2 ^ 64 = a"
    by simp
  with assms show False
    by (cases "b = 2 ^ 64") auto
qed

lemma mint_all_distinct:
  assumes "length names \<le> 2 ^ 64"
  shows "distinct (mint_all ctr names)"
proof -
  have neq: "mint_all ctr names ! i \<noteq> mint_all ctr names ! j"
    if "i < j" "j < length names" for i j
  proof
    assume "mint_all ctr names ! i = mint_all ctr names ! j"
    with that mint_all_nth [of i names ctr] mint_all_nth [of j names ctr]
    have "names ! i @ ''-'' @ decimal (unat (ctr + of_nat (Suc i)))
        = names ! j @ ''-'' @ decimal (unat (ctr + of_nat (Suc j)))"
      by simp
    then have "unat (ctr + of_nat (Suc i)) = unat (ctr + of_nat (Suc j))"
      by (rule ident_number)
    then have "ctr + of_nat (Suc i) = ctr + (of_nat (Suc j) :: 64 word)"
      by (simp only: word_unat_eq_iff)
    then have "(of_nat (Suc i) :: 64 word) = of_nat (Suc j)"
      by (simp only: add_left_cancel)
    moreover from that assms have "(of_nat (Suc i) :: 64 word) \<noteq> of_nat (Suc j)"
      by (intro word64_of_nat_neq) auto
    ultimately show False by simp
  qed
  show ?thesis
    unfolding distinct_conv_nth length_mint_all
  proof (intro allI impI)
    fix i j
    assume "i < length names" "j < length names" "i \<noteq> j"
    then consider "i < j" | "j < i"
      by linarith
    then show "mint_all ctr names ! i \<noteq> mint_all ctr names ! j"
    proof cases
      case 1
      with \<open>j < length names\<close> show ?thesis by (simp add: neq)
    next
      case 2
      with \<open>i < length names\<close> have "mint_all ctr names ! j \<noteq> mint_all ctr names ! i"
        by (simp add: neq)
      then show ?thesis by (rule not_sym)
    qed
  qed
qed

text \<open>
  Claim C8, as amended. Up to \<open>2 ^ 64\<close> successive calls of \<open>MakeToolUseID\<close>, with
  any tool names (repeated or containing \<open>-\<close>), return pairwise distinct
  identifiers; the \<open>i\<close>-th identifier (from 0) is the \<open>i\<close>-th name, \<open>-\<close>, and the
  counter after \<open>i + 1\<close> increments in decimal.
\<close>

theorem identifiers_distinct:
  assumes "length names \<le> 2 ^ 64"
  shows "distinct (mint_all ctr names) \<and>
         (\<forall>i < length names.
            mint_all ctr names ! i = names ! i @ ''-'' @ decimal (unat (ctr + of_nat (Suc i))))"
  using assms by (simp add: mint_all_distinct mint_all_nth)

theorem identifiers_distinct_witness:
  "length [''a'', ''a-1'', ''a''] \<le> 2 ^ 64 \<and>
   distinct (mint_all 0 [''a'', ''a-1'', ''a'']) \<and>
   mint_all 0 [''a'', ''a-1'', ''a''] ! 1 = ''a-1-2''"
proof -
  have len: "length [''a'', ''a-1'', ''a''] \<le> 2 ^ 64"
    by simp
  from identifiers_distinct [OF len, of 0]
  have "distinct (mint_all 0 [''a'', ''a-1'', ''a''])"
    and "mint_all 0 [''a'', ''a-1'', ''a''] ! 1
         = [''a'', ''a-1'', ''a''] ! 1 @ ''-'' @ decimal (unat ((0 :: counter) + of_nat (Suc 1)))"
    by simp_all
  moreover have "decimal 2 = ''2''"
    by code_simp
  ultimately show ?thesis
    using len by simp
qed

text \<open>
  The claim as stated (any number of calls) fails once the 64-bit counter has wrapped
  around: call number \<open>2 ^ 64 + 1\<close> returns the identifier of the first call again.
\<close>

theorem identifiers_repeat_after_wraparound:
  "\<not> distinct (mint_all 0 (replicate (2 ^ 64 + 1) ''a''))"
proof
  let ?ids = "mint_all 0 (replicate (2 ^ 64 + 1) ''a'')"
  assume "distinct ?ids"
  moreover have "?ids ! (2 ^ 64) = ?ids ! 0"
    by (simp add: mint_all_nth)
  moreover have "(2 :: nat) ^ 64 < length ?ids" "0 < length ?ids" "(2 :: nat) ^ 64 \<noteq> 0"
    by (simp_all add: length_mint_all)
  ultimately show False
    by (simp only: nth_eq_iff_index_eq)
qed

section \<open>Properties of the feature toggle\<close>

text \<open>
  Claim C9, as amended. \<open>IsMcpXmlEnabled\<close> returns true when the variable is unset or
  empty; otherwise it returns false exactly when the value, with the white space
  around it trimmed, is one of \<open>0\<close>, \<open>false\<close>, \<open>no\<close>, \<open>off\<close> up to the case of its
  letters.
\<close>

theorem toggle_semantics:
  "IsMcpXmlEnabled env =
     (Getenv env MCP_XML_ENV = []
      \<or> \<not> spec_disabling_value (TrimSpace (Getenv env MCP_XML_ENV)))"
proof -
  have "map lower_byte ''0'' = ''0''" "map lower_byte ''false'' = ''false''"
    "map lower_byte ''no'' = ''no''" "map lower_byte ''off'' = ''off''"
    by (simp_all add: lower_byte_def)
  then show ?thesis
    by (simp only: IsMcpXmlEnabled_def Let_def spec_disabling_value_def equal_fold_def
        ToLower_def) auto
qed

theorem toggle_semantics_witness:
  "IsMcpXmlEnabled Map.empty \<and>
   IsMcpXmlEnabled (Map.empty(MCP_XML_ENV \<mapsto> ''yes'')) \<and>
   IsMcpXmlEnabled (Map.empty(MCP_XML_ENV \<mapsto> ''f alse'')) \<and>
   IsMcpXmlEnabled (Map.empty(MCP_XML_ENV \<mapsto> [CHR 0x09] @ ''False '')) = False"
  unfolding toggle_semantics by code_simp

text \<open>
  The claim as stated fails on a value with white space around it: \<open>" off "\<close> is not
  one of the four strings in any letter case, and it disables the subsystem.
\<close>

theorem toggle_trims_white_space:
  "\<not> (\<forall>env. (\<not> IsMcpXmlEnabled env) = spec_disabling_value (Getenv env MCP_XML_ENV))"
proof
  assume a: "\<forall>env. (\<not> IsMcpXmlEnabled env) = spec_disabling_value (Getenv env MCP_XML_ENV)"
  have "\<not> IsMcpXmlEnabled (Map.empty(MCP_XML_ENV \<mapsto> '' off ''))"
    by code_simp
  moreover have "\<not> spec_disabling_value (Getenv (Map.empty(MCP_XML_ENV \<mapsto> '' off '')) MCP_XML_ENV)"
    by code_simp
  ultimately show False
    using a by blast
qed

section \<open>Properties of Flush\<close>

text \<open>
  Claim C5. In every parser state: if the buffer is not empty, whatever it holds,
  \<open>Flush\<close> returns exactly one text segment with the whole buffer as its content and
  leaves the buffer empty; if the buffer is empty, \<open>Flush\<close> returns no segment and
  leaves the parser as it is.
\<close>

theorem Flush_contract:
  "(buffer p \<noteq> [] \<longrightarrow> Flush p = ([Text (buffer p)], p\<lparr>buffer := []\<rparr>)) \<and>
   (buffer p = [] \<longrightarrow> Flush p = ([], p))"
  by (simp add: Flush_def)

theorem Flush_contract_witness:
  "buffer \<lparr>toolNames = [''tool''], buffer = ''<to''\<rparr> \<noteq> [] \<and>
   Flush \<lparr>toolNames = [''tool''], buffer = ''<to''\<rparr>
     = ([Text ''<to''], \<lparr>toolNames = [''tool''], buffer = []\<rparr>) \<and>
   buffer \<lparr>toolNames = [''tool''], buffer = []\<rparr> = [] \<and>
   Flush \<lparr>toolNames = [''tool''], buffer = []\<rparr> = ([], \<lparr>toolNames = [''tool''], buffer = []\<rparr>)"
  using Flush_contract [of "\<lparr>toolNames = [''tool''], buffer = ''<to''\<rparr>"]
    Flush_contract [of "\<lparr>toolNames = [''tool''], buffer = []\<rparr>"]
  by simp

section \<open>The buffer between calls\<close>

text \<open>
  What one name contributes to the search of \<open>findNextToolStartIndex\<close>: the first
  occurrence of its opening tag, if the boundary rule accepts it.
\<close>

definition candidate :: "string \<Rightarrow> string \<Rightarrow> nat option" where
  "candidate buf name =
     (case Index buf (CHR ''<'' # name) of
        None \<Rightarrow> None
      | Some idx \<Rightarrow>
          if idx + Suc (length name) < length buf
             \<and> \<not> boundary_char (buf ! (idx + Suc (length name)))
          then None else Some idx)"

lemma find_start_loop_Cons:
  "find_start_loop buf (name # names) best =
     find_start_loop buf names
       (case candidate buf name of
          None \<Rightarrow> best
        | Some idx \<Rightarrow>
            if (case best of None \<Rightarrow> True | Some (b, _) \<Rightarrow> idx < b) then Some (idx, name)
            else best)"
  by (simp add: candidate_def Let_def split: option.splits)

lemma find_start_loop_origin:
  "find_start_loop buf names best = Some (i, n) \<Longrightarrow>
   best = Some (i, n) \<or> (n \<in> set names \<and> candidate buf n = Some i)"
proof (induction names arbitrary: best)
  case Nil
  then show ?case by simp
next
  case (Cons name names)
  from Cons.prems Cons.IH show ?case
    unfolding find_start_loop_Cons
    by (fastforce split: option.splits if_splits)
qed

lemma Index_prefix: "Index s sub = Some i \<Longrightarrow> prefix sub (drop i s)"
proof (induction s arbitrary: i)
  case Nil
  then show ?case by (simp split: if_splits)
next
  case (Cons c s)
  then show ?case
    by (auto split: if_splits)
qed

lemma candidate_accepted:
  assumes "candidate buf name = Some i"
  shows "accepted_open (drop i buf) name"
proof -
  from assms have idx: "Index buf (CHR ''<'' # name) = Some i"
    and b: "\<not> (i + Suc (length name) < length buf
             \<and> \<not> boundary_char (buf ! (i + Suc (length name))))"
    by (auto simp: candidate_def split: option.splits if_splits)
  from Index_le [OF idx] have le: "i \<le> length buf"
    by simp
  from b le have "length (drop i buf) \<le> Suc (length name)
      \<or> boundary_char (drop i buf ! Suc (length name))"
    by (auto simp: not_less)
  with Index_prefix [OF idx] show ?thesis
    by (simp add: accepted_open_def)
qed



lemma isPossibleToolTagPrefix_buffer [simp]:
  "isPossibleToolTagPrefix (p\<lparr>buffer := b\<rparr>) t = isPossibleToolTagPrefix p t"
  by (simp add: isPossibleToolTagPrefix_def)

lemma Index_least:
  "Index s sub = Some i \<Longrightarrow> j < i \<Longrightarrow> \<not> prefix sub (drop j s)"
proof (induction s arbitrary: i j)
  case Nil
  then show ?case by (simp split: if_splits)
next
  case (Cons c s)
  then show ?case
    by (cases j) (auto split: if_splits)
qed



text \<open>
  \<open>closing_tag_arrived\<close> is a condition on the bytes of the buffer alone: the buffer
  can be cut into some bytes, \<open></name\<close>, some bytes, \<open>>\<close>, and the rest.
\<close>

lemma closing_tag_arrived_iff:
  "closing_tag_arrived buf name \<longleftrightarrow>
     (\<exists>u v w. buf = u @ ''</'' @ name @ v @ CHR ''>'' # w)"
proof
  assume "closing_tag_arrived buf name"
  then obtain i where p: "prefix (''</'' @ name) (drop i buf)"
    and g: "CHR ''>'' \<in> set (drop (i + length (''</'' @ name)) buf)"
    by (auto simp: closing_tag_arrived_def closed_at_def list_ex_iff)
  from p obtain r where r: "drop i buf = (''</'' @ name) @ r"
    by (auto simp: prefix_def)
  then have "drop (length (''</'' @ name)) (drop i buf) = r"
    by (metis append_eq_conv_conj)
  with g have "CHR ''>'' \<in> set r"
    by (simp add: add.commute)
  then obtain v w where "r = v @ CHR ''>'' # w"
    by (auto simp: in_set_conv_decomp)
  with r have "buf = take i buf @ ''</'' @ name @ v @ CHR ''>'' # w"
    by (metis append.assoc append_take_drop_id)
  then show "\<exists>u v w. buf = u @ ''</'' @ name @ v @ CHR ''>'' # w"
    by blast
next
  assume "\<exists>u v w. buf = u @ ''</'' @ name @ v @ CHR ''>'' # w"
  then obtain u v w where b: "buf = u @ ''</'' @ name @ v @ CHR ''>'' # w"
    by blast
  then have "closed_at buf name (length u)"
    by (simp add: closed_at_def)
  moreover from b have "length u < length buf"
    by simp
  ultimately show "closing_tag_arrived buf name"
    by (auto simp: closing_tag_arrived_def list_ex_iff)
qed








section \<open>Decoding a complete element\<close>

text \<open>
  If \<open>Y @ W = W @ S\<close>, then \<open>W\<close> is built from the bytes of \<open>S\<close>. It follows that
  in a text that ends with \<open></name>\<close> the closing pattern matches at that closing tag
  and nowhere before it, whatever the name and the text are: an earlier match would
  make \<open></name\<close> a rotation of itself by white space only.
\<close>

lemma rotation_chars:
  "Y @ W = W @ S \<Longrightarrow> set W \<subseteq> set S \<or> S = []"
proof (induction "length W" arbitrary: W rule: less_induct)
  case less
  show ?case
  proof (cases "length W \<le> length S")
    case True
    from less.prems have "suffix W (W @ S)"
      by (metis suffixI)
    with True have "suffix W S"
      by (auto simp: suffix_append)
    then show ?thesis
      by (auto dest: set_mono_suffix)
  next
    case False
    from less.prems have "suffix S (Y @ W)"
      by (metis suffixI)
    with False have "suffix S W"
      by (auto simp: suffix_append)
    then obtain W1 where W: "W = W1 @ S"
      by (auto simp: suffix_def)
    with less.prems have "Y @ W1 = W1 @ S"
      by simp
    moreover from W False have "length W1 < length W \<or> S = []"
      by (cases S) auto
    ultimately have "set W1 \<subseteq> set S \<or> S = []"
      using less.hyps by blast
    with W show ?thesis
      by auto
  qed
qed

lemma close_here_decompose:
  assumes "close_here name s"
  shows "\<exists>s1 s2. s = ''</'' @ name @ s1 @ ''>'' @ s2
           \<and> (\<forall>c \<in> set s1. re_space c) \<and> (\<forall>c \<in> set s2. re_space c)"
proof -
  let ?tag = "''</'' @ name"
  from assms obtain r where p: "prefix ?tag s"
    and d: "dropWhile re_space (drop (length ?tag) s) = CHR ''>'' # r"
    and r: "dropWhile re_space r = []"
    by (auto simp: close_here_def Let_def split: list.splits)
  from p obtain t where s: "s = ?tag @ t"
    by (auto simp: prefix_def)
  with d have "t = takeWhile re_space t @ CHR ''>'' # r"
    by (metis append_eq_conv_conj drop_all dual_order.refl length_append takeWhile_dropWhile_id
        append.assoc append_same_eq)
  moreover from r have "\<forall>c \<in> set r. re_space c"
    by (simp add: dropWhile_eq_Nil_conv)
  moreover have "\<forall>c \<in> set (takeWhile re_space t). re_space c"
    by (auto dest: set_takeWhileD)
  ultimately show ?thesis
    using s by (intro exI [of _ "takeWhile re_space t"] exI [of _ r]) auto
qed

lemma close_here_canonical: "close_here name (''</'' @ name @ ''>'')"
  by (simp add: close_here_def re_space_def)

lemma no_earlier_close:
  assumes "k < length A"
  shows "\<not> close_here name (drop k (A @ ''</'' @ name @ ''>''))"
proof
  let ?W = "''</'' @ name"
  assume "close_here name (drop k (A @ ''</'' @ name @ ''>''))"
  from close_here_decompose [OF this] obtain s1 s2 where
    eq: "drop k (A @ ?W @ ''>'') = ?W @ s1 @ ''>'' @ s2"
    and s1: "\<forall>c \<in> set s1. re_space c" and s2: "\<forall>c \<in> set s2. re_space c"
    by auto
  from assms have eq': "drop k A @ ?W @ ''>'' = ?W @ s1 @ ''>'' @ s2"
    using eq by simp
  have "s2 = []"
  proof (rule ccontr)
    assume "s2 \<noteq> []"
    then have l2: "last (?W @ s1 @ ''>'' @ s2) = last s2"
      by simp
    have "last (drop k A @ ?W @ ''>'') = CHR ''>''"
      by simp
    then have "last (?W @ s1 @ ''>'' @ s2) = CHR ''>''"
      unfolding eq' .
    with l2 have "last s2 = CHR ''>''"
      by simp
    with \<open>s2 \<noteq> []\<close> s2 have "re_space (CHR ''>'')"
      by (metis last_in_set)
    then show False
      by (simp add: re_space_def)
  qed
  with eq' have "(drop k A @ ?W) @ ''>'' = (?W @ s1) @ ''>''"
    by simp
  then have rot: "drop k A @ ?W = ?W @ s1"
    by (simp only: append_same_eq)
  from assms have "length (drop k A) > 0"
    by simp
  moreover have "length (drop k A @ ?W) = length (?W @ s1)"
    by (simp only: rot)
  then have "length s1 = length (drop k A)"
    by simp
  ultimately have "s1 \<noteq> []"
    by auto
  with rotation_chars [OF rot] have "CHR ''<'' \<in> set s1"
    by auto
  with s1 have "re_space (CHR ''<'')"
    by blast
  then show False
    by (simp add: re_space_def)
qed

lemma closePattern_start_first:
  "k < length s \<Longrightarrow> close_here name (drop k s) \<Longrightarrow>
   (\<forall>j < k. \<not> close_here name (drop j s)) \<Longrightarrow> closePattern_start name s = Some k"
proof (induction s arbitrary: k)
  case Nil
  then show ?case by simp
next
  case (Cons c s)
  show ?case
  proof (cases k)
    case 0
    with Cons.prems show ?thesis by simp
  next
    case (Suc k')
    with Cons.prems have "\<not> close_here name (c # s)"
      by (metis drop0 zero_less_Suc)
    moreover from Cons.prems Suc have "closePattern_start name s = Some k'"
      by (intro Cons.IH) (auto dest: spec [of _ "Suc _"])
    ultimately show ?thesis
      using Suc by simp
  qed
qed

lemma closePattern_start_canonical:
  "closePattern_start name (A @ ''</'' @ name @ ''>'') = Some (length A)"
proof (rule closePattern_start_first)
  show "length A < length (A @ ''</'' @ name @ ''>'')"
    by simp
  show "close_here name (drop (length A) (A @ ''</'' @ name @ ''>''))"
    using close_here_canonical [of name] by simp
  show "\<forall>j < length A. \<not> close_here name (drop j (A @ ''</'' @ name @ ''>''))"
    using no_earlier_close by blast
qed

lemma Index_first_char: "c \<notin> set xs \<Longrightarrow> Index (xs @ c # ys) [c] = Some (length xs)"
  by (induction xs) auto

lemma openPattern_end_element:
  assumes "attributes attrs"
  shows "openPattern_end name (CHR ''<'' # name @ attrs @ CHR ''>'' # rest)
         = Some (length name + length attrs + 2)"
proof (cases attrs)
  case Nil
  then show ?thesis
    by (simp add: openPattern_end_def Let_def re_space_def)
next
  case (Cons a as)
  with assms have a: "re_space a" "a \<noteq> CHR ''>''" and n: "CHR ''>'' \<notin> set (a # as)"
    by (auto simp: attributes_def)
  from Index_first_char [OF n, of rest] have "Index (a # as @ CHR ''>'' # rest) ''>'' = Some (Suc (length as))"
    by simp
  with Cons a show ?thesis
    by (simp add: openPattern_end_def Let_def re_space_def)
qed

lemma TryParse_element:
  assumes "name \<noteq> []" "ValidString name" "attributes attrs"
  shows "TryParseMcpToolCallXml ctr (element name attrs body) name =
           (if TrimSpace body = [] then
              Inr (Some \<lparr>Name = name, Input = Some [],
                         ID = name @ ''-'' @ decimal (unat (ctr + 1))\<rparr>, ctr + 1)
            else
              (case Unmarshal (TrimSpace body) of
                 Inl _ \<Rightarrow> Inr (None, ctr)
               | Inr parsed \<Rightarrow>
                   Inr (Some \<lparr>Name = name, Input = parsed,
                              ID = name @ ''-'' @ decimal (unat (ctr + 1))\<rparr>, ctr + 1)))"
proof -
  let ?A = "CHR ''<'' # name @ attrs @ CHR ''>'' # body"
  have e: "element name attrs body = ?A @ ''</'' @ name @ ''>''"
    by (simp add: element_def)
  have o: "openPattern_end name (element name attrs body) = Some (length name + length attrs + 2)"
    using openPattern_end_element [OF assms(3), of name "body @ ''</'' @ name @ ''>''"]
    by (simp add: element_def)
  have c: "closePattern_start name (element name attrs body) = Some (length ?A)"
    unfolding e by (rule closePattern_start_canonical)
  have inner: "take (length ?A - (length name + length attrs + 2))
                 (drop (length name + length attrs + 2) (element name attrs body)) = body"
    by (simp add: element_def)
  have ne: "element name attrs body \<noteq> []"
    by (simp add: element_def)
  show ?thesis
    unfolding TryParseMcpToolCallXml_def o c
    using assms(1,2) ne inner
    by (simp add: patterns_compile_def MakeToolUseID_def Let_def split: sum.splits)
qed

lemma Index_notin: "c \<notin> set s \<Longrightarrow> Index s (c # sub) = None"
  by (induction s) (auto simp: prefix_Cons)

lemma find_start_loop_no_lt:
  "CHR ''<'' \<notin> set buf \<Longrightarrow> find_start_loop buf names best = best"
  by (induction names arbitrary: best) (simp_all add: Index_notin)

lemma LastIndex_notin: "c \<notin> set s \<Longrightarrow> LastIndex s [c] = None"
  by (simp add: LastIndex_def Index_notin)

lemma PushText_loop_no_lt:
  assumes "CHR ''<'' \<notin> set (buffer p)"
  shows "PushText_loop p ctr results =
           Inr (if buffer p = [] then results else results @ [Text (buffer p)],
                p\<lparr>buffer := []\<rparr>, ctr)"
  using assms
  by (simp add: PushText_loop.simps [of p] findNextToolStartIndex_def find_start_loop_no_lt
      emit_and_keep_def splitBufferForPartialTag_def LastIndex_notin)

lemma PushText_loop_step:
  assumes "findNextToolStartIndex p = Some (index, name)" "name \<noteq> []"
    and "findCloseTagEndIndex (p\<lparr>buffer := drop index (buffer p)\<rparr>) name = Some closeEnd"
    and "TryParseMcpToolCallXml ctr (take closeEnd (drop index (buffer p))) name
           = Inr (parsed, ctr')"
  shows "PushText_loop p ctr results =
           PushText_loop (p\<lparr>buffer := drop closeEnd (drop index (buffer p))\<rparr>) ctr'
             ((if index > 0 then results @ [Text (take index (buffer p))] else results)
              @ [case parsed of
                   Some call \<Rightarrow> Tool (Name call) (Input call)
                 | None \<Rightarrow> Text (take closeEnd (drop index (buffer p)))])"
  using assms
  by (cases parsed) (simp_all add: PushText_loop.simps [of p] Let_def)

lemma TrimSpace_Nil: "TrimSpace [] = []"
  by code_simp

lemma PushText_whole_element:
  assumes "buffer p = []" "xml \<noteq> []" "name \<noteq> []"
    and "findNextToolStartIndex (p\<lparr>buffer := xml\<rparr>) = Some (0, name)"
    and "findCloseTagEndIndex (p\<lparr>buffer := xml\<rparr>) name = Some (length xml)"
    and "TryParseMcpToolCallXml ctr xml name = Inr (parsed, ctr')"
  shows "PushText ctr p xml =
           Inr ([case parsed of Some call \<Rightarrow> Tool (Name call) (Input call) | None \<Rightarrow> Text xml],
                p, ctr')"
proof -
  have "PushText ctr p xml = PushText_loop (p\<lparr>buffer := xml\<rparr>) ctr []"
    using assms(1,2) by (simp add: PushText_def)
  also have "\<dots> = PushText_loop (p\<lparr>buffer := []\<rparr>) ctr'
      [case parsed of Some call \<Rightarrow> Tool (Name call) (Input call) | None \<Rightarrow> Text xml]"
    using PushText_loop_step [of "p\<lparr>buffer := xml\<rparr>" 0 name "length xml" ctr parsed ctr' "[]"]
      assms(3-6)
    by (cases parsed) simp_all
  also have "\<dots> = Inr ([case parsed of Some call \<Rightarrow> Tool (Name call) (Input call)
                            | None \<Rightarrow> Text xml], p, ctr')"
    using assms(1) by (simp add: PushText_loop_no_lt)
  finally show ?thesis .
qed

lemma first_identifier_number: "decimal (unat ((0 :: counter) + 1)) = ''1''"
proof -
  have "decimal 1 = ''1''"
    by code_simp
  then show ?thesis
    by simp
qed

text \<open>
  Claim C6, as amended. For every non-empty tool name that is well-formed UTF-8, a
  complete element (with attributes or without) whose interior is empty or white
  space only decodes to a call with that name, an empty and non-nil argument mapping
  and a newly minted, non-empty identifier; the counter advances by one, and the
  result is the one for the empty interior. When such an element is pushed into a
  parser with an empty buffer and the locator finds the name at index 0 and the end
  of the closing tag at the end of the element, \<open>PushText\<close> yields exactly one
  segment, the tool segment with that name and the empty mapping.
\<close>

theorem empty_body_yields_tool:
  assumes "name \<noteq> []" "ValidString name" "attributes attrs" "TrimSpace ws = []"
  shows "TryParseMcpToolCallXml ctr (element name attrs ws) name =
           Inr (Some \<lparr>Name = name, Input = Some [],
                      ID = name @ ''-'' @ decimal (unat (ctr + 1))\<rparr>, ctr + 1)
         \<and> name @ ''-'' @ decimal (unat (ctr + 1)) \<noteq> []
         \<and> TryParseMcpToolCallXml ctr (element name attrs ws) name =
             TryParseMcpToolCallXml ctr (element name attrs []) name
         \<and> (buffer p = []
              \<and> findNextToolStartIndex (p\<lparr>buffer := element name attrs ws\<rparr>) = Some (0, name)
              \<and> findCloseTagEndIndex (p\<lparr>buffer := element name attrs ws\<rparr>) name
                  = Some (length (element name attrs ws))
             \<longrightarrow> PushText ctr p (element name attrs ws) = Inr ([Tool name (Some [])], p, ctr + 1))"
proof -
  have t: "TryParseMcpToolCallXml ctr (element name attrs ws) name =
           Inr (Some \<lparr>Name = name, Input = Some [],
                      ID = name @ ''-'' @ decimal (unat (ctr + 1))\<rparr>, ctr + 1)"
    using assms by (simp add: TryParse_element)
  moreover have "TryParseMcpToolCallXml ctr (element name attrs []) name =
           Inr (Some \<lparr>Name = name, Input = Some [],
                      ID = name @ ''-'' @ decimal (unat (ctr + 1))\<rparr>, ctr + 1)"
    using assms by (simp add: TryParse_element TrimSpace_Nil)
  moreover have "PushText ctr p (element name attrs ws) = Inr ([Tool name (Some [])], p, ctr + 1)"
    if "buffer p = []"
      "findNextToolStartIndex (p\<lparr>buffer := element name attrs ws\<rparr>) = Some (0, name)"
      "findCloseTagEndIndex (p\<lparr>buffer := element name attrs ws\<rparr>) name
         = Some (length (element name attrs ws))"
    using PushText_whole_element [OF that(1) _ assms(1) that(2,3) t]
    by (simp add: element_def)
  ultimately show ?thesis
    by simp
qed

theorem empty_body_yields_tool_witness:
  "''tool'' \<noteq> [] \<and> ValidString ''tool'' \<and> attributes [] \<and> TrimSpace [CHR '' '', CHR 0x0A] = [] \<and>
   buffer (NewXmlStreamParser [''tool'']) = [] \<and>
   findNextToolStartIndex
     (NewXmlStreamParser [''tool'']\<lparr>buffer := element ''tool'' [] [CHR '' '', CHR 0x0A]\<rparr>)
     = Some (0, ''tool'') \<and>
   findCloseTagEndIndex
     (NewXmlStreamParser [''tool'']\<lparr>buffer := element ''tool'' [] [CHR '' '', CHR 0x0A]\<rparr>) ''tool''
     = Some (length (element ''tool'' [] [CHR '' '', CHR 0x0A])) \<and>
   TryParseMcpToolCallXml 0 (element ''tool'' [] [CHR '' '', CHR 0x0A]) ''tool''
     = Inr (Some \<lparr>Name = ''tool'', Input = Some [], ID = ''tool-1''\<rparr>, 1) \<and>
   PushText 0 (NewXmlStreamParser [''tool'']) (element ''tool'' [] [CHR '' '', CHR 0x0A])
     = Inr ([Tool ''tool'' (Some [])], NewXmlStreamParser [''tool''], 1)"
proof -
  have h1: "''tool'' \<noteq> []" by simp
  have h2: "ValidString ''tool''" by code_simp
  have h3: "attributes []" by (simp add: attributes_def)
  have h4: "TrimSpace [CHR '' '', CHR 0x0A] = []" by code_simp
  have h5: "buffer (NewXmlStreamParser [''tool'']) = []" by code_simp
  have h6: "findNextToolStartIndex
     (NewXmlStreamParser [''tool'']\<lparr>buffer := element ''tool'' [] [CHR '' '', CHR 0x0A]\<rparr>)
     = Some (0, ''tool'')" by code_simp
  have h7: "findCloseTagEndIndex
     (NewXmlStreamParser [''tool'']\<lparr>buffer := element ''tool'' [] [CHR '' '', CHR 0x0A]\<rparr>) ''tool''
     = Some (length (element ''tool'' [] [CHR '' '', CHR 0x0A]))" by code_simp
  note d = first_identifier_number
  from empty_body_yields_tool [OF h1 h2 h3 h4, of 0 "NewXmlStreamParser [''tool'']"] h5 h6 h7 d
  show ?thesis
    using h1 h2 h3 h4 by simp
qed

text \<open>
  The claim as stated (for every known tool name) fails for a name that is not
  well-formed UTF-8: the patterns built from it do not compile, and
  \<open>regexp.MustCompile\<close> panics.
\<close>

theorem empty_body_ill_formed_name_panics:
  "TryParseMcpToolCallXml 0 (element [CHR 0xFF] [] []) [CHR 0xFF]
     = Inl (RegexpCompileError [CHR 0xFF])"
  by code_simp

text \<open>
  Claim C10, as amended. For every non-empty tool name that is well-formed UTF-8 and
  every complete element whose trimmed interior is well-formed JSON, but neither an
  object nor \<open>null\<close> (an array, a string, a number, \<open>true\<close> or \<open>false\<close>),
  \<open>TryParseMcpToolCallXml\<close> returns not-matched and mints no identifier. When such
  an element is pushed into a parser with an empty buffer and the locator finds the
  name at index 0 and the end of the closing tag at the end of the element,
  \<open>PushText\<close> yields exactly one segment, the text segment with the whole element.
\<close>

theorem non_object_json_is_text:
  assumes "name \<noteq> []" "ValidString name" "attributes attrs"
    and "json_value (TrimSpace body) = Some v" "v \<noteq> JNull" "\<forall>kvs. v \<noteq> JObject kvs"
  shows "TryParseMcpToolCallXml ctr (element name attrs body) name = Inr (None, ctr)
         \<and> (buffer p = []
              \<and> findNextToolStartIndex (p\<lparr>buffer := element name attrs body\<rparr>) = Some (0, name)
              \<and> findCloseTagEndIndex (p\<lparr>buffer := element name attrs body\<rparr>) name
                  = Some (length (element name attrs body))
             \<longrightarrow> PushText ctr p (element name attrs body)
                   = Inr ([Text (element name attrs body)], p, ctr))"
proof -
  have "json_value [] = None"
    by code_simp
  with assms(4) have ne: "TrimSpace body \<noteq> []"
    by auto
  from assms(4-6) have "Unmarshal (TrimSpace body) = Inl ()"
    by (cases v) (auto simp: json_value_def Unmarshal_def split: option.splits)
  with ne assms(1-3) have t: "TryParseMcpToolCallXml ctr (element name attrs body) name = Inr (None, ctr)"
    by (simp add: TryParse_element)
  moreover have "PushText ctr p (element name attrs body) = Inr ([Text (element name attrs body)], p, ctr)"
    if "buffer p = []"
      "findNextToolStartIndex (p\<lparr>buffer := element name attrs body\<rparr>) = Some (0, name)"
      "findCloseTagEndIndex (p\<lparr>buffer := element name attrs body\<rparr>) name
         = Some (length (element name attrs body))"
    using PushText_whole_element [OF that(1) _ assms(1) that(2,3) t]
    by (simp add: element_def)
  ultimately show ?thesis
    by simp
qed

theorem non_object_json_is_text_witness:
  "''foo'' \<noteq> [] \<and> ValidString ''foo'' \<and> attributes [] \<and>
   json_value (TrimSpace ''[1]'') = Some (JArray [JNumber ''1'']) \<and>
   buffer (NewXmlStreamParser [''foo'']) = [] \<and>
   findNextToolStartIndex (NewXmlStreamParser [''foo'']\<lparr>buffer := element ''foo'' [] ''[1]''\<rparr>)
     = Some (0, ''foo'') \<and>
   findCloseTagEndIndex (NewXmlStreamParser [''foo'']\<lparr>buffer := element ''foo'' [] ''[1]''\<rparr>) ''foo''
     = Some (length (element ''foo'' [] ''[1]'')) \<and>
   TryParseMcpToolCallXml 0 (element ''foo'' [] ''[1]'') ''foo'' = Inr (None, 0) \<and>
   PushText 0 (NewXmlStreamParser [''foo'']) (element ''foo'' [] ''[1]'')
     = Inr ([Text ''<foo>[1]</foo>''], NewXmlStreamParser [''foo''], 0)"
proof -
  have h1: "''foo'' \<noteq> []" by simp
  have h2: "ValidString ''foo''" by code_simp
  have h3: "attributes []" by (simp add: attributes_def)
  have h4: "json_value (TrimSpace ''[1]'') = Some (JArray [JNumber ''1''])" by code_simp
  have h5: "JArray [JNumber ''1''] \<noteq> JNull" by simp
  have h6: "\<forall>kvs. JArray [JNumber ''1''] \<noteq> JObject kvs" by simp
  have h7: "buffer (NewXmlStreamParser [''foo'']) = []" by code_simp
  have h8: "findNextToolStartIndex
      (NewXmlStreamParser [''foo'']\<lparr>buffer := element ''foo'' [] ''[1]''\<rparr>) = Some (0, ''foo'')"
    by code_simp
  have h9: "findCloseTagEndIndex
      (NewXmlStreamParser [''foo'']\<lparr>buffer := element ''foo'' [] ''[1]''\<rparr>) ''foo''
      = Some (length (element ''foo'' [] ''[1]''))"
    by code_simp
  have e: "element ''foo'' [] ''[1]'' = ''<foo>[1]</foo>''" by (simp add: element_def)
  from non_object_json_is_text [OF h1 h2 h3 h4 h5 h6, of 0 "NewXmlStreamParser [''foo'']"] h7 h8 h9
  show ?thesis
    using h1 h2 h3 h4 e by simp
qed

text \<open>
  The claim as stated (every well-formed JSON value that is not an object) fails for
  \<open>null\<close>: \<open>json.Unmarshal\<close> stores \<open>null\<close> into a map without error and leaves the
  map nil, so the element becomes a tool segment with a nil argument mapping. It
  fails as well for a tool name that is not well-formed UTF-8: decoding panics.
\<close>

theorem null_payload_is_a_tool_call:
  "json_value (TrimSpace ''null'') = Some JNull \<and>
   TryParseMcpToolCallXml 0 ''<foo>null</foo>'' ''foo''
     = Inr (Some \<lparr>Name = ''foo'', Input = None, ID = ''foo-1''\<rparr>, 1) \<and>
   PushText 0 (NewXmlStreamParser [''foo'']) ''<foo>null</foo>''
     = Inr ([Tool ''foo'' None], NewXmlStreamParser [''foo''], 1) \<and>
   TryParseMcpToolCallXml 0 (element [CHR 0xFF] [] ''[1]'') [CHR 0xFF]
     = Inl (RegexpCompileError [CHR 0xFF])"
proof -
  have ill: "TryParseMcpToolCallXml 0 (element [CHR 0xFF] [] ''[1]'') [CHR 0xFF]
     = Inl (RegexpCompileError [CHR 0xFF])"
    by code_simp
  have v: "ValidString ''foo''" by code_simp
  have a: "attributes []" by (simp add: attributes_def)
  have t: "TrimSpace ''null'' = ''null''" by code_simp
  have u: "Unmarshal ''null'' = Inr None" by code_simp
  have j: "json_value ''null'' = Some JNull" by code_simp
  have e: "element ''foo'' [] ''null'' = ''<foo>null</foo>''" by (simp add: element_def)
  have parse: "TryParseMcpToolCallXml 0 ''<foo>null</foo>'' ''foo''
     = Inr (Some \<lparr>Name = ''foo'', Input = None, ID = ''foo-1''\<rparr>, 1)"
    using TryParse_element [OF _ v a, of 0 "''null''"] t u first_identifier_number
    by (simp add: e)
  have b: "buffer (NewXmlStreamParser [''foo'']) = []" by code_simp
  have f: "findNextToolStartIndex (NewXmlStreamParser [''foo'']\<lparr>buffer := ''<foo>null</foo>''\<rparr>)
      = Some (0, ''foo'')"
    by code_simp
  have c: "findCloseTagEndIndex (NewXmlStreamParser [''foo'']\<lparr>buffer := ''<foo>null</foo>''\<rparr>) ''foo''
      = Some (length ''<foo>null</foo>'')"
    by code_simp
  from PushText_whole_element [OF b _ _ f c parse] parse t j ill show ?thesis
    by simp
qed

section \<open>Names that share a prefix\<close>

lemma find_start_loop_keeps:
  "(\<forall>m \<in> set names. \<forall>j. candidate buf m = Some j \<longrightarrow> i \<le> j) \<Longrightarrow>
   find_start_loop buf names (Some (i, L)) = Some (i, L)"
  by (induction names)
    (auto simp: find_start_loop_Cons simp del: find_start_loop.simps(2) split: option.splits)

lemma find_start_loop_unique:
  assumes "L \<in> set names" "candidate buf L = Some i"
    and "\<forall>m \<in> set names. m \<noteq> L \<longrightarrow> (\<forall>j. candidate buf m = Some j \<longrightarrow> i < j)"
    and "\<forall>b n. best = Some (b, n) \<longrightarrow> i < b"
  shows "find_start_loop buf names best = Some (i, L)"
  using assms
proof (induction names arbitrary: best)
  case Nil
  then show ?case by simp
next
  case (Cons m names)
  show ?case
  proof (cases "m = L")
    case True
    from Cons.prems(2,3) have "\<forall>m' \<in> set names. \<forall>j. candidate buf m' = Some j \<longrightarrow> i \<le> j"
      by (metis list.set_intros(2) option.inject order_less_imp_le order_refl)
    from find_start_loop_keeps [OF this, of L] True Cons.prems(2,4) show ?thesis
      by (cases best) (auto simp: find_start_loop_Cons simp del: find_start_loop.simps(2))
  next
    case False
    with Cons.prems(1) have mem: "L \<in> set names"
      by simp
    from Cons.prems(3) have rest: "\<forall>m' \<in> set names. m' \<noteq> L \<longrightarrow>
        (\<forall>j. candidate buf m' = Some j \<longrightarrow> i < j)"
      by simp
    show ?thesis
    proof (cases "candidate buf m")
      case None
      with Cons.IH [OF mem Cons.prems(2) rest Cons.prems(4)] show ?thesis
        by (simp add: find_start_loop_Cons del: find_start_loop.simps(2))
    next
      case (Some j)
      with False Cons.prems(3) have "i < j"
        by simp
      with Some Cons.prems(4)
      have "\<forall>b n. (if (case best of None \<Rightarrow> True | Some (b, _) \<Rightarrow> j < b) then Some (j, m) else best)
               = Some (b, n) \<longrightarrow> i < b"
        by (auto split: if_splits)
      from Cons.IH [OF mem Cons.prems(2) rest this] Some show ?thesis
        by (simp add: find_start_loop_Cons del: find_start_loop.simps(2))
    qed
  qed
qed

lemma Index_append_notin:
  "c \<notin> set pre \<Longrightarrow>
   Index (pre @ s) (c # sub) =
     (case Index s (c # sub) of None \<Rightarrow> None | Some i \<Rightarrow> Some (length pre + i))"
  by (induction pre) (auto simp: prefix_Cons split: option.splits)

lemma Index_prefix_0: "prefix sub s \<Longrightarrow> Index s sub = Some 0"
  by (cases s) auto

lemma Index_first:
  "prefix sub (drop q s) \<Longrightarrow> (\<forall>k < q. \<not> prefix sub (drop k s)) \<Longrightarrow> Index s sub = Some q"
proof (induction s arbitrary: q)
  case Nil
  then show ?case
    by (cases q) auto
next
  case (Cons c s)
  show ?case
  proof (cases q)
    case 0
    with Cons.prems show ?thesis by simp
  next
    case (Suc q')
    with Cons.prems have "\<not> prefix sub (c # s)"
      by (metis drop0 zero_less_Suc)
    moreover from Cons.prems Suc have "Index s sub = Some q'"
      by (intro Cons.IH) (auto dest: spec [of _ "Suc _"])
    ultimately show ?thesis
      using Suc by simp
  qed
qed

lemma prefix_second: "prefix (a # b # r) (drop k s) \<Longrightarrow> Suc k < length s \<and> s ! Suc k = b"
proof -
  assume "prefix (a # b # r) (drop k s)"
  then obtain z where d: "drop k s = a # b # r @ z"
    by (auto simp: prefix_def)
  then have "length (drop k s) \<ge> 2"
    by simp
  then have l: "Suc k < length s"
    by simp
  then have "s ! Suc k = drop k s ! 1"
    by simp
  with d l show ?thesis
    by simp
qed

lemma prefix_before_char: "prefix m (L @ c # r) \<Longrightarrow> c \<notin> set m \<Longrightarrow> prefix m L"
  by (auto simp: prefix_append prefix_Cons)


lemma element_plain: "element L [] body = CHR ''<'' # L @ CHR ''>'' # body @ ''</'' @ L @ ''>''"
  by (simp add: element_def)

lemma candidate_of_element:
  assumes "CHR ''<'' \<notin> set pre"
  shows "candidate (pre @ element L [] body @ post) L = Some (length pre)"
proof -
  let ?buf = "pre @ element L [] body @ post"
  have "prefix (CHR ''<'' # L) (element L [] body @ post)"
    by (simp add: element_plain)
  then have "Index (element L [] body @ post) (CHR ''<'' # L) = Some 0"
    by (rule Index_prefix_0)
  with assms have i: "Index ?buf (CHR ''<'' # L) = Some (length pre)"
    by (simp add: Index_append_notin)
  have "(element L [] body @ post) ! Suc (length L) = CHR ''>''"
    by (simp add: element_plain nth_append)
  then have "?buf ! (length pre + Suc (length L)) = CHR ''>''"
    by (simp only: nth_append_length_plus)
  with i show ?thesis
    by (simp add: candidate_def boundary_char_def)
qed

lemma other_candidates_later:
  assumes pre: "CHR ''<'' \<notin> set pre"
    and m: "\<forall>c \<in> set m. \<not> boundary_char c" and L: "\<forall>c \<in> set L. \<not> boundary_char c"
    and neq: "m \<noteq> L"
    and cand: "candidate (pre @ element L [] body @ post) m = Some j"
  shows "length pre < j"
proof (rule ccontr)
  let ?e = "element L [] body @ post"
  let ?buf = "pre @ ?e"
  assume "\<not> length pre < j"
  from cand have idx: "Index ?buf (CHR ''<'' # m) = Some j"
    and acc: "\<not> (j + Suc (length m) < length ?buf
               \<and> \<not> boundary_char (?buf ! (j + Suc (length m))))"
    by (auto simp: candidate_def split: option.splits if_splits)
  from idx pre obtain j' where j': "Index ?e (CHR ''<'' # m) = Some j'" and j: "j = length pre + j'"
    by (auto simp: Index_append_notin split: option.splits)
  with \<open>\<not> length pre < j\<close> have "j' = 0"
    by simp
  with Index_prefix [OF j'] have "prefix (CHR ''<'' # m) ?e"
    by simp
  then have "prefix m (L @ CHR ''>'' # body @ ''</'' @ L @ ''>'' @ post)"
    by (simp add: element_plain)
  moreover from m have "CHR ''>'' \<notin> set m"
    by (auto simp: boundary_char_def)
  ultimately have "prefix m L"
    by (rule prefix_before_char)
  with neq obtain x xs where Lm: "L = m @ x # xs"
    by (metis append_Nil2 neq_Nil_conv prefix_def)
  then have "?e ! Suc (length m) = x"
    by (simp add: element_plain nth_append)
  then have nth: "?buf ! (length pre + Suc (length m)) = x"
    by (simp only: nth_append_length_plus)
  from Lm L have "\<not> boundary_char x"
    by simp
  moreover from Lm have "length pre + Suc (length m) < length ?buf"
    by (simp add: element_plain)
  ultimately show False
    using acc nth j \<open>j' = 0\<close> by simp
qed

lemma findNext_of_element:
  assumes "L \<in> set (toolNames p)" "CHR ''<'' \<notin> set pre"
    and "\<forall>name \<in> set (toolNames p). \<forall>c \<in> set name. \<not> boundary_char c"
  shows "findNextToolStartIndex (p\<lparr>buffer := pre @ element L [] body @ post\<rparr>)
           = Some (length pre, L)"
  unfolding findNextToolStartIndex_def
  using assms
  by (intro find_start_loop_unique)
    (auto simp: candidate_of_element dest: other_candidates_later [rotated -1])

lemma findClose_of_element:
  assumes "CHR ''/'' \<notin> set L" "CHR ''/'' \<notin> set body"
  shows "findCloseTagEndIndex (p\<lparr>buffer := element L [] body @ post\<rparr>) L
           = Some (length (element L [] body))"
proof -
  let ?M = "L @ CHR ''>'' # body @ ''<''"
  let ?A = "CHR ''<'' # L @ CHR ''>'' # body"
  let ?needle = "''</'' @ L"
  let ?buf = "element L [] body @ post"
  have buf: "?buf = ?A @ ?needle @ CHR ''>'' # post"
    by (simp add: element_plain)
  have split: "?buf = (CHR ''<'' # ?M) @ (CHR ''/'' # L @ CHR ''>'' # post)"
    by (simp add: element_plain)
  have no: "\<not> prefix ?needle (drop k ?buf)" if "k < length ?A" for k
  proof
    assume "prefix ?needle (drop k ?buf)"
    then have "prefix (CHR ''<'' # CHR ''/'' # L) (drop k ?buf)"
      by simp
    from prefix_second [OF this] have s: "?buf ! Suc k = CHR ''/''"
      by simp
    from that have k: "k < length ?M"
      by simp
    then have "Suc k < length (CHR ''<'' # ?M)"
      by simp
    then have "((CHR ''<'' # ?M) @ (CHR ''/'' # L @ CHR ''>'' # post)) ! Suc k
        = (CHR ''<'' # ?M) ! Suc k"
      by (rule nth_append_left)
    then have "((CHR ''<'' # ?M) @ (CHR ''/'' # L @ CHR ''>'' # post)) ! Suc k = ?M ! k"
      by (simp only: nth_Cons_Suc)
    with s have "?M ! k = CHR ''/''"
      by (simp only: split)
    with nth_mem [OF k] have "CHR ''/'' \<in> set ?M"
      by simp
    with assms show False
      by simp
  qed
  have "prefix ?needle (drop (length ?A) ?buf)"
    by (simp only: buf drop_append) simp
  with no have i: "Index ?buf ?needle = Some (length ?A)"
    by (intro Index_first) auto
  have "?buf = (?A @ ?needle) @ CHR ''>'' # post"
    by (simp add: element_plain)
  then have "drop (length (?A @ ?needle)) ?buf = CHR ''>'' # post"
    by (metis append_eq_conv_conj)
  then have d: "drop (length ?A + length ?needle) ?buf = CHR ''>'' # post"
    by (simp only: length_append)
  then have g: "Index (drop (length ?A + length ?needle) ?buf) ''>'' = Some 0"
    by simp
  have l: "length ?A + length ?needle < length ?buf"
    by (simp add: element_plain)
  have e: "length ?A + length ?needle + 0 + 1 = length (element L [] body)"
    by (simp add: element_plain)
  show ?thesis
    unfolding findCloseTagEndIndex_def Let_def
    using i g l e by simp
qed

lemma Index_append_Some:
  "Index s sub = Some k \<Longrightarrow> Index (s @ t) sub = Some k"
proof (rule Index_first)
  assume i: "Index s sub = Some k"
  from Index_prefix [OF i] Index_le [OF i] show "prefix sub (drop k (s @ t))"
    by (auto simp: prefix_def)
  show "\<forall>j<k. \<not> prefix sub (drop j (s @ t))"
  proof (intro allI impI notI)
    fix j assume j: "j < k" and p: "prefix sub (drop j (s @ t))"
    from Index_le [OF i] j have "length sub \<le> length (drop j s)"
      by simp
    with p j Index_le [OF i] have "prefix sub (drop j s)"
      by (auto simp: prefix_append dest: prefix_length_le)
    with Index_least [OF i j] show False
      by simp
  qed
qed

lemma accepted_open_prefix:
  assumes a: "accepted_open d a" and b: "prefix (CHR ''<'' # b) d" and ab: "prefix a b"
    and plain: "\<forall>c \<in> set b. \<not> boundary_char c"
  shows "a = b"
proof (rule ccontr)
  assume "a \<noteq> b"
  with ab obtain x xs where bx: "b = a @ x # xs"
    by (metis append_Nil2 neq_Nil_conv prefix_def)
  with b obtain z where d: "d = CHR ''<'' # a @ x # xs @ z"
    by (auto simp: prefix_def)
  then have "d ! Suc (length a) = x" and "Suc (length a) < length d"
    by (simp_all add: nth_append)
  with a have "boundary_char x"
    by (auto simp: accepted_open_def)
  with plain bx show False
    by simp
qed

lemma accepted_open_unique:
  assumes "accepted_open d a" "accepted_open d b"
    and "\<forall>c \<in> set a. \<not> boundary_char c" "\<forall>c \<in> set b. \<not> boundary_char c"
  shows "a = b"
proof -
  from assms(1,2) have pa: "prefix (CHR ''<'' # a) d" and pb: "prefix (CHR ''<'' # b) d"
    by (simp_all add: accepted_open_def)
  then have "prefix (CHR ''<'' # a) (CHR ''<'' # b) \<or> prefix (CHR ''<'' # b) (CHR ''<'' # a)"
    by (rule prefix_same_cases)
  then have "prefix a b \<or> prefix b a"
    by simp
  then show ?thesis
  proof
    assume "prefix a b"
    then show ?thesis
      by (rule accepted_open_prefix [OF assms(1) pb _ assms(4)])
  next
    assume "prefix b a"
    then have "b = a"
      by (rule accepted_open_prefix [OF assms(2) pa _ assms(3)])
    then show ?thesis
      by simp
  qed
qed

lemma candidate_iff:
  "candidate buf name = Some i \<longleftrightarrow>
     Index buf (CHR ''<'' # name) = Some i \<and> accepted_open (drop i buf) name"
proof
  assume c: "candidate buf name = Some i"
  then have "Index buf (CHR ''<'' # name) = Some i"
    by (auto simp: candidate_def split: option.splits if_splits)
  with candidate_accepted [OF c]
  show "Index buf (CHR ''<'' # name) = Some i \<and> accepted_open (drop i buf) name"
    by simp
next
  assume a: "Index buf (CHR ''<'' # name) = Some i \<and> accepted_open (drop i buf) name"
  then have idx: "Index buf (CHR ''<'' # name) = Some i"
    and acc: "length (drop i buf) \<le> Suc (length name)
                \<or> boundary_char (drop i buf ! Suc (length name))"
    by (simp_all add: accepted_open_def)
  from Index_le [OF idx] have "i \<le> length buf"
    by simp
  with acc have "\<not> (i + Suc (length name) < length buf
             \<and> \<not> boundary_char (buf ! (i + Suc (length name))))"
    by auto
  with idx show "candidate buf name = Some i"
    by (simp add: candidate_def)
qed

lemma findNext_reaches:
  assumes mem: "L \<in> set (toolNames p)"
    and plain: "plain_names (toolNames p)"
    and idx: "Index (buffer p) (CHR ''<'' # L) = Some n"
    and acc: "accepted_open (drop n (buffer p)) L"
    and clear: "no_opening_before (toolNames p) (buffer p) n"
  shows "findNextToolStartIndex p = Some (n, L)"
  unfolding findNextToolStartIndex_def
proof (rule find_start_loop_unique [OF mem])
  from idx acc show "candidate (buffer p) L = Some n"
    by (simp add: candidate_iff)
  show "\<forall>m \<in> set (toolNames p). m \<noteq> L \<longrightarrow> (\<forall>j. candidate (buffer p) m = Some j \<longrightarrow> n < j)"
  proof (intro ballI impI allI)
    fix m j
    assume m: "m \<in> set (toolNames p)" and neq: "m \<noteq> L" and c: "candidate (buffer p) m = Some j"
    from c have i: "Index (buffer p) (CHR ''<'' # m) = Some j"
      and a: "accepted_open (drop j (buffer p)) m"
      by (simp_all add: candidate_iff)
    from clear m i a have "n \<le> j"
      by (auto simp: no_opening_before_def list_all_iff)
    moreover have "j \<noteq> n"
    proof
      assume "j = n"
      with a acc plain m mem have "m = L"
        by (intro accepted_open_unique [of "drop n (buffer p)"]) (auto simp: plain_names_def)
      with neq show False
        by simp
    qed
    ultimately show "n < j"
      by simp
  qed
  show "\<forall>b n'. None = Some (b, n') \<longrightarrow> n < b"
    by simp
qed

lemma findClose_own:
  assumes own: "closes_at_last_byte L (element L attrs body)"
  shows "findCloseTagEndIndex (p\<lparr>buffer := element L attrs body @ post\<rparr>) L
           = Some (length (element L attrs body))"
proof -
  let ?e = "element L attrs body"
  let ?needle = "''</'' @ L"
  let ?A = "CHR ''<'' # L @ attrs @ CHR ''>'' # body"
  from own obtain a where a: "Index ?e ?needle = Some a"
    and g: "CHR ''>'' \<notin> set (butlast (drop (a + length ?needle) ?e))"
    by (auto simp: closes_at_last_byte_def split: option.splits)
  have e: "?e = ?A @ ?needle @ ''>''"
    by (simp add: element_def)
  have "prefix ?needle (drop (length ?A) ?e)"
    by (simp only: e drop_append) simp
  with Index_least [OF a, of "length ?A"] have "a \<le> length ?A"
    by (meson not_le_imp_less)
  then have l: "a + length ?needle < length ?e"
    by (simp add: element_def)
  define r where "r = drop (a + length ?needle) ?e"
  from l have rn: "r \<noteq> []"
    by (simp add: r_def)
  have "last ?e = CHR ''>''"
    by (simp add: element_def)
  with l have "last r = CHR ''>''"
    by (simp add: r_def)
  with rn have r: "r = butlast r @ [CHR ''>'']"
    by (metis append_butlast_last_id)
  from g have "CHR ''>'' \<notin> set (butlast r)"
    by (simp add: r_def)
  from Index_first_char [OF this, of post] r
  have gi: "Index (r @ post) ''>'' = Some (length r - 1)"
    by (metis append.assoc append_Cons append_Nil length_butlast)
  from l have d: "drop (a + length ?needle) (?e @ post) = r @ post"
    by (simp add: r_def)
  from rn l have len: "a + length ?needle + (length r - 1) + 1 = length ?e"
    by (simp add: r_def)
  from Index_append_Some [OF a, of post] have i: "Index (?e @ post) ?needle = Some a"
    .
  from l have l': "\<not> a + length ?needle \<ge> length (?e @ post)"
    by simp
  have b: "buffer (p\<lparr>buffer := ?e @ post\<rparr>) = ?e @ post"
    by simp
  show ?thesis
    unfolding findCloseTagEndIndex_def Let_def
    by (simp only: b i option.case l' if_False d gi len simp_thms)
qed

text \<open>
  The conditions on the input that the theorem below asks for hold in the ordinary
  cases: an element whose name, attributes and payload hold no \<open><\<close> is closed by its
  own last byte, and behind a text without \<open><\<close> the element's opening tag is the
  first one of the buffer.
\<close>

lemma prefix_first: "prefix (a # r) (drop k s) \<Longrightarrow> k < length s \<and> s ! k = a"
proof -
  assume "prefix (a # r) (drop k s)"
  then obtain z where d: "drop k s = a # r @ z"
    by (auto simp: prefix_def)
  then have l: "k < length s"
    by (metis drop_eq_Nil list.distinct(1) not_le_imp_less)
  then have "s ! k = hd (drop k s)"
    by (simp add: hd_drop_conv_nth)
  with d l show ?thesis
    by simp
qed

lemma closes_at_last_byte_element:
  assumes ne: "L \<noteq> []" and sl: "CHR ''/'' \<notin> set L"
    and lt: "CHR ''<'' \<notin> set (L @ attrs @ body)"
  shows "closes_at_last_byte L (element L attrs body)"
proof -
  let ?M = "L @ attrs @ CHR ''>'' # body"
  let ?A = "CHR ''<'' # ?M"
  let ?needle = "''</'' @ L"
  let ?e = "element L attrs body"
  have e: "?e = ?A @ ?needle @ ''>''"
    by (simp add: element_def)
  from lt have ltM: "CHR ''<'' \<notin> set ?M"
    by simp
  have no: "\<not> prefix ?needle (drop k ?e)" if k: "k < length ?A" for k
  proof
    assume p: "prefix ?needle (drop k ?e)"
    then have "prefix (CHR ''<'' # CHR ''/'' # L) (drop k ?e)"
      by simp
    from prefix_first [OF this] prefix_second [OF this]
    have f: "?e ! k = CHR ''<''" and s: "?e ! Suc k = CHR ''/''"
      by simp_all
    from k have "?e ! k = ?A ! k"
      unfolding e by (rule nth_append_left)
    with f have Ak: "?A ! k = CHR ''<''"
      by simp
    have "k = 0"
    proof (rule ccontr)
      assume "k \<noteq> 0"
      then obtain k' where k': "k = Suc k'"
        by (cases k) auto
      with Ak k have "?M ! k' = CHR ''<''" and "k' < length ?M"
        by simp_all
      with ltM show False
        by (metis nth_mem)
    qed
    with s have "?e ! 1 = CHR ''/''"
      by simp
    moreover from ne have "?e ! 1 = hd L"
      by (cases L) (simp_all add: element_def)
    ultimately have "hd L = CHR ''/''"
      by simp
    with ne sl show False
      by (cases L) auto
  qed
  have "prefix ?needle (drop (length ?A) ?e)"
    by (simp only: e drop_append) simp
  with no have i: "Index ?e ?needle = Some (length ?A)"
    by (intro Index_first) auto
  have "?e = (?A @ ?needle) @ ''>''"
    by (simp add: element_def)
  then have "drop (length (?A @ ?needle)) ?e = ''>''"
    by (metis append_eq_conv_conj)
  then have "drop (length ?A + length ?needle) ?e = ''>''"
    by (simp only: length_append)
  with i show ?thesis
    by (simp add: closes_at_last_byte_def)
qed

lemma opening_after_text:
  assumes "CHR ''<'' \<notin> set pre"
  shows "Index (pre @ element L attrs body @ post) (CHR ''<'' # L) = Some (length pre)"
    and "no_opening_before names (pre @ s) (length pre)"
proof -
  have "prefix (CHR ''<'' # L) (element L attrs body @ post)"
    by (simp add: element_def)
  then have "Index (element L attrs body @ post) (CHR ''<'' # L) = Some 0"
    by (rule Index_prefix_0)
  with assms show "Index (pre @ element L attrs body @ post) (CHR ''<'' # L) = Some (length pre)"
    by (simp add: Index_append_notin)
  from assms show "no_opening_before names (pre @ s) (length pre)"
    by (auto simp: no_opening_before_def list_all_iff Index_append_notin split: option.splits)
qed

lemma PushText_loop_element:
  assumes f: "findNextToolStartIndex p = Some (i, L)" and ne: "L \<noteq> []"
    and valid: "ValidString L" and at: "attributes attrs"
    and d: "drop i (buffer p) = element L attrs body @ post"
    and own: "closes_at_last_byte L (element L attrs body)"
    and dec: "decodes_to body m"
  shows "PushText_loop p ctr results =
           PushText_loop (p\<lparr>buffer := post\<rparr>) (ctr + 1)
             ((if 0 < i then results @ [Text (take i (buffer p))] else results) @ [Tool L m])"
proof -
  let ?e = "element L attrs body"
  have c: "findCloseTagEndIndex (p\<lparr>buffer := drop i (buffer p)\<rparr>) L = Some (length ?e)"
    using findClose_own [OF own, where p = p and post = post] by (simp add: d)
  have t: "TryParseMcpToolCallXml ctr (take (length ?e) (drop i (buffer p))) L
      = Inr (Some \<lparr>Name = L, Input = m, ID = L @ ''-'' @ decimal (unat (ctr + 1))\<rparr>, ctr + 1)"
    using TryParse_element [OF ne valid at, of ctr body] dec
    by (auto simp: d decodes_to_def)
  from PushText_loop_step [OF f ne c t, of results] show ?thesis
    by (simp add: d)
qed

lemma emit_and_keep_results:
  "emit_and_keep p ctr results =
     (case emit_and_keep p ctr [] of
        Inl e \<Rightarrow> Inl e
      | Inr (r, p', c) \<Rightarrow> Inr (results @ r, p', c))"
  by (simp add: emit_and_keep_def split: prod.splits)

lemma PushText_loop_results:
  "PushText_loop p ctr results =
     (case PushText_loop p ctr [] of
        Inl e \<Rightarrow> Inl e
      | Inr (r, p', c) \<Rightarrow> Inr (results @ r, p', c))"
proof (induction "length (buffer p)" arbitrary: p ctr results rule: less_induct)
  case less
  show ?case
  proof (cases "findNextToolStartIndex p")
    case None
    then show ?thesis
      using emit_and_keep_results [of p ctr results]
      by (simp add: PushText_loop.simps [of p])
  next
    case (Some found)
    obtain index name where found: "found = (index, name)"
      by (cases found)
    show ?thesis
    proof (cases "name = []")
      case True
      with Some found show ?thesis
        using emit_and_keep_results [of p ctr results]
        by (simp add: PushText_loop.simps [of p])
    next
      case False
      define p1 where "p1 = p\<lparr>buffer := drop index (buffer p)\<rparr>"
      show ?thesis
      proof (cases "findCloseTagEndIndex p1 name")
        case None
        with Some found False show ?thesis
          by (simp add: PushText_loop.simps [of p] p1_def [symmetric] Let_def)
      next
        case (Some closeEnd)
        define p2 where "p2 = p1\<lparr>buffer := drop closeEnd (buffer p1)\<rparr>"
        from findCloseTagEndIndex_bounds [OF Some]
        have "length (buffer p2) < length (buffer p)"
          by (auto simp: p2_def p1_def)
        note IH = less.hyps [OF this]
        show ?thesis
        proof (cases "TryParseMcpToolCallXml ctr (take closeEnd (buffer p1)) name")
          case (Inl e)
          with Some found False \<open>findNextToolStartIndex p = Some found\<close> show ?thesis
            by (simp add: PushText_loop.simps [of p] p1_def [symmetric] Let_def)
        next
          case (Inr res)
          obtain parsed ctr' where res: "res = (parsed, ctr')"
            by (cases res)
          define seg where "seg = (case parsed of
              Some call \<Rightarrow> Tool (Name call) (Input call)
            | None \<Rightarrow> Text (take closeEnd (buffer p1)))"
          define pre where "pre = (if index > 0 then [Text (take index (buffer p))] else [])"
          have step: "PushText_loop p ctr rs = PushText_loop p2 ctr' ((rs @ pre) @ [seg])" for rs
            using Some found False \<open>findNextToolStartIndex p = Some found\<close> Inr res
            by (cases parsed)
              (simp_all add: PushText_loop.simps [of p] p1_def [symmetric] p2_def [symmetric]
                Let_def seg_def pre_def)
          show ?thesis
            unfolding step [of results] step [of "[]"]
            by (subst IH [of ctr' "(results @ pre) @ [seg]"], subst IH [of ctr' "([] @ pre) @ [seg]"])
              (simp split: sum.splits prod.splits)
        qed
      qed
    qed
  qed
qed

lemma accepted_open_element:
  assumes "boundary_char (hd (attrs @ ''>''))"
  shows "accepted_open (element L attrs body @ post) L"
proof -
  obtain x r where x: "attrs @ ''>'' = x # r"
    by (cases "attrs @ ''>''") auto
  then have e: "element L attrs body @ post
      = (CHR ''<'' # L) @ x # r @ body @ ''</'' @ L @ ''>'' @ post"
    by (simp add: element_def)
  have "(element L attrs body @ post) ! Suc (length L) = x"
    unfolding e by (simp add: nth_append)
  moreover have "prefix (CHR ''<'' # L) (element L attrs body @ post)"
    by (simp add: element_def)
  ultimately show ?thesis
    using assms x by (simp add: accepted_open_def)
qed

text \<open>
  Claim C4, as amended. Let no known name hold a boundary character (\<open>>\<close>, \<open>/\<close>,
  space, tab, LF, CR), and let the set hold a name and a strict extension of it.

  \<^item> In every buffer: where the opening tag of the longer name stands,
    \<open>findNextToolStartIndex\<close> never stops under the shorter name; and where the
    boundary rule accepts the opening tag of the longer name, it stops under the longer
    name or not at all.

  \<^item> In every round of the loop of \<open>PushText\<close>: when the locator stops where a
    complete element of the longer name stands (the name well-formed UTF-8, attributes
    or none, a boundary character behind the name, the element closed by its own last
    byte, a payload that decodes), the round emits the text before the element, if
    any, and one tool segment carrying the longer name with the decoded arguments, and
    the loop goes on behind the element.

  \<^item> For every parser state and every chunk: when the buffer with the chunk is some
    text, such an element and some text, the element's opening tag is the first
    occurrence of \<open><longer\<close> in it and no known name opens before the element, then
    \<open>PushText\<close> yields the text before the element, if any, then one tool segment
    carrying the longer name, then what the loop yields for the text behind the
    element.
\<close>

theorem boundary_precision:
  assumes "shorter \<in> set (toolNames p)" and "shorter @ ext \<in> set (toolNames p)"
    and "ext \<noteq> []" and "plain_names (toolNames p)"
  shows "(findNextToolStartIndex p = Some (i, name)
            \<and> prefix (CHR ''<'' # shorter @ ext) (drop i (buffer p))
          \<longrightarrow> name \<noteq> shorter)
       \<and> (findNextToolStartIndex p = Some (i, name)
            \<and> accepted_open (drop i (buffer p)) (shorter @ ext)
          \<longrightarrow> name = shorter @ ext)
       \<and> (findNextToolStartIndex p = Some (i, name)
            \<and> drop i (buffer p) = element (shorter @ ext) attrs body @ post
            \<and> ValidString (shorter @ ext) \<and> attributes attrs
            \<and> boundary_char (hd (attrs @ ''>''))
            \<and> closes_at_last_byte (shorter @ ext) (element (shorter @ ext) attrs body)
            \<and> decodes_to body m
          \<longrightarrow> PushText_loop p ctr results =
                PushText_loop (p\<lparr>buffer := post\<rparr>) (ctr + 1)
                  ((if 0 < i then results @ [Text (take i (buffer p))] else results)
                   @ [Tool (shorter @ ext) m]))
       \<and> (chunk \<noteq> []
            \<and> buffer p @ chunk = pre @ element (shorter @ ext) attrs body @ post
            \<and> ValidString (shorter @ ext) \<and> attributes attrs
            \<and> boundary_char (hd (attrs @ ''>''))
            \<and> closes_at_last_byte (shorter @ ext) (element (shorter @ ext) attrs body)
            \<and> decodes_to body m
            \<and> Index (buffer p @ chunk) (CHR ''<'' # shorter @ ext) = Some (length pre)
            \<and> no_opening_before (toolNames p) (buffer p @ chunk) (length pre)
          \<longrightarrow> PushText ctr p chunk =
                (case PushText_loop (p\<lparr>buffer := post\<rparr>) (ctr + 1) [] of
                   Inl e \<Rightarrow> Inl e
                 | Inr (rest, p', ctr') \<Rightarrow>
                     Inr ((if pre = [] then [] else [Text pre])
                          @ Tool (shorter @ ext) m # rest, p', ctr')))"
proof -
  let ?L = "shorter @ ext"
  from assms(2,4) have plainL: "\<forall>c \<in> set ?L. \<not> boundary_char c"
    by (simp add: plain_names_def)
  from assms(3) have ne: "?L \<noteq> []"
    by simp
  have origin: "name \<in> set (toolNames p) \<and> accepted_open (drop i (buffer p)) name"
    if "findNextToolStartIndex p = Some (i, name)" for i name
    using find_start_loop_origin [of "buffer p" "toolNames p" None i name] that
    by (auto simp: findNextToolStartIndex_def dest: candidate_accepted)
  have never_shorter: "name \<noteq> shorter"
    if f: "findNextToolStartIndex p = Some (i, name)"
      and pr: "prefix (CHR ''<'' # ?L) (drop i (buffer p))" for i name
  proof
    assume "name = shorter"
    with origin [OF f] have "accepted_open (drop i (buffer p)) shorter"
      by simp
    from accepted_open_prefix [OF this pr _ plainL] have "shorter = ?L"
      by simp
    with assms(3) show False
      by simp
  qed
  have longer: "name = ?L"
    if f: "findNextToolStartIndex p = Some (i, name)"
      and acc: "accepted_open (drop i (buffer p)) ?L" for i name
  proof -
    from origin [OF f] assms(4) have "\<forall>c \<in> set name. \<not> boundary_char c"
      by (auto simp: plain_names_def)
    with origin [OF f] acc plainL show ?thesis
      by (intro accepted_open_unique [of "drop i (buffer p)"]) simp_all
  qed
  have step: "PushText_loop p ctr results =
      PushText_loop (p\<lparr>buffer := post\<rparr>) (ctr + 1)
        ((if 0 < i then results @ [Text (take i (buffer p))] else results) @ [Tool ?L m])"
    if f: "findNextToolStartIndex p = Some (i, name)"
      and d: "drop i (buffer p) = element ?L attrs body @ post"
      and v: "ValidString ?L" and at: "attributes attrs"
      and b: "boundary_char (hd (attrs @ ''>''))"
      and own: "closes_at_last_byte ?L (element ?L attrs body)"
      and dec: "decodes_to body m"
  proof -
    from accepted_open_element [OF b, of ?L body post] d
    have "accepted_open (drop i (buffer p)) ?L"
      by simp
    from longer [OF f this] f have "findNextToolStartIndex p = Some (i, ?L)"
      by simp
    from PushText_loop_element [OF this ne v at d own dec] show ?thesis .
  qed
  have push: "PushText ctr p chunk =
      (case PushText_loop (p\<lparr>buffer := post\<rparr>) (ctr + 1) [] of
         Inl e \<Rightarrow> Inl e
       | Inr (rest, p', ctr') \<Rightarrow>
           Inr ((if pre = [] then [] else [Text pre]) @ Tool ?L m # rest, p', ctr'))"
    if t: "chunk \<noteq> []"
      and buf: "buffer p @ chunk = pre @ element ?L attrs body @ post"
      and v: "ValidString ?L" and at: "attributes attrs"
      and b: "boundary_char (hd (attrs @ ''>''))"
      and own: "closes_at_last_byte ?L (element ?L attrs body)"
      and dec: "decodes_to body m"
      and idx: "Index (buffer p @ chunk) (CHR ''<'' # ?L) = Some (length pre)"
      and clear: "no_opening_before (toolNames p) (buffer p @ chunk) (length pre)"
  proof -
    let ?p0 = "p\<lparr>buffer := buffer p @ chunk\<rparr>"
    have d: "drop (length pre) (buffer ?p0) = element ?L attrs body @ post"
      by (simp add: buf)
    from accepted_open_element [OF b, of ?L body post]
    have acc: "accepted_open (drop (length pre) (buffer ?p0)) ?L"
      by (simp only: d)
    have f: "findNextToolStartIndex ?p0 = Some (length pre, ?L)"
      using assms(2,4) idx acc clear by (intro findNext_reaches) simp_all
    have tk: "take (length pre) (buffer ?p0) = pre"
      by (simp add: buf)
    have "PushText ctr p chunk = PushText_loop ?p0 ctr []"
      using t by (simp add: PushText_def)
    also have "\<dots> = PushText_loop (p\<lparr>buffer := post\<rparr>) (ctr + 1)
        ((if pre = [] then [] else [Text pre]) @ [Tool ?L m])"
      using PushText_loop_element [OF f ne v at d own dec, of ctr "[]"]
      by (simp only: tk) simp
    also have "\<dots> = (case PushText_loop (p\<lparr>buffer := post\<rparr>) (ctr + 1) [] of
         Inl e \<Rightarrow> Inl e
       | Inr (rest, p', ctr') \<Rightarrow>
           Inr ((if pre = [] then [] else [Text pre]) @ Tool ?L m # rest, p', ctr'))"
      by (subst PushText_loop_results) (simp split: sum.splits)
    finally show ?thesis .
  qed
  from never_shorter longer step push show ?thesis
    by blast
qed

theorem boundary_precision_witness:
  "''foo'' \<in> set [''foo'', ''foobar''] \<and> ''foobar'' \<in> set [''foo'', ''foobar''] \<and>
   ''bar'' \<noteq> [] \<and> plain_names [''foo'', ''foobar''] \<and>
   findNextToolStartIndex
     \<lparr>toolNames = [''foo'', ''foobar''], buffer = ''a<b <foobar x=1>{}</foobar>!''\<rparr>
     = Some (4, ''foobar'') \<and>
   prefix ''<foobar'' (drop 4 ''a<b <foobar x=1>{}</foobar>!'') \<and>
   accepted_open (drop 4 ''a<b <foobar x=1>{}</foobar>!'') ''foobar'' \<and>
   ''foobar'' \<noteq> ''foo'' \<and>
   drop 4 ''a<b <foobar x=1>{}</foobar>!'' = element ''foobar'' '' x=1'' ''{}'' @ ''!'' \<and>
   ValidString ''foobar'' \<and> attributes '' x=1'' \<and> boundary_char (hd ('' x=1'' @ ''>'')) \<and>
   closes_at_last_byte ''foobar'' (element ''foobar'' '' x=1'' ''{}'') \<and>
   decodes_to ''{}'' (Some []) \<and>
   PushText_loop
     \<lparr>toolNames = [''foo'', ''foobar''], buffer = ''a<b <foobar x=1>{}</foobar>!''\<rparr> 0 []
     = Inr ([Text ''a<b '', Tool ''foobar'' (Some []), Text ''!''],
            \<lparr>toolNames = [''foo'', ''foobar''], buffer = []\<rparr>, 1) \<and>
   Index ''a<b <foobar x=1>{}</foobar>!'' ''<foobar'' = Some 4 \<and>
   no_opening_before [''foo'', ''foobar''] ''a<b <foobar x=1>{}</foobar>!'' 4 \<and>
   PushText 0 \<lparr>toolNames = [''foo'', ''foobar''], buffer = ''a<b ''\<rparr>
       ''<foobar x=1>{}</foobar>!''
     = Inr ([Text ''a<b '', Tool ''foobar'' (Some []), Text ''!''],
            \<lparr>toolNames = [''foo'', ''foobar''], buffer = []\<rparr>, 1)"
proof -
  let ?names = "[''foo'', ''foobar'']"
  let ?buf = "''a<b <foobar x=1>{}</foobar>!''"
  let ?p = "\<lparr>toolNames = ?names, buffer = ?buf\<rparr>"
  let ?q = "\<lparr>toolNames = ?names, buffer = ''a<b ''\<rparr>"
  let ?e = "element (''foo'' @ ''bar'') '' x=1'' ''{}''"
  have h1: "''foo'' \<in> set (toolNames ?p)" by simp
  have h2: "''foo'' @ ''bar'' \<in> set (toolNames ?p)" by simp
  have h3: "''bar'' \<noteq> []" by simp
  have h4: "plain_names (toolNames ?p)" by (simp add: plain_names_def boundary_char_def)
  have k1: "''foo'' \<in> set (toolNames ?q)" by simp
  have k2: "''foo'' @ ''bar'' \<in> set (toolNames ?q)" by simp
  have k4: "plain_names (toolNames ?q)" by (simp add: plain_names_def boundary_char_def)
  have f: "findNextToolStartIndex ?p = Some (4, ''foobar'')" by code_simp
  have pr: "prefix (CHR ''<'' # ''foo'' @ ''bar'') (drop 4 (buffer ?p))" by simp
  have acc: "accepted_open (drop 4 (buffer ?p)) (''foo'' @ ''bar'')"
    by (simp add: accepted_open_def boundary_char_def)
  have d: "drop 4 (buffer ?p) = ?e @ ''!''" by (simp add: element_def)
  have v: "ValidString (''foo'' @ ''bar'')" by code_simp
  have at: "attributes '' x=1''" by (simp add: attributes_def re_space_def)
  have b: "boundary_char (hd ('' x=1'' @ ''>''))" by (simp add: boundary_char_def)
  have own: "closes_at_last_byte (''foo'' @ ''bar'') ?e" by code_simp
  have dec: "decodes_to ''{}'' (Some [])" by code_simp
  have t: "''<foobar x=1>{}</foobar>!'' \<noteq> []" by simp
  have buf: "buffer ?q @ ''<foobar x=1>{}</foobar>!'' = ''a<b '' @ ?e @ ''!''"
    by (simp add: element_def)
  have idx: "Index (buffer ?q @ ''<foobar x=1>{}</foobar>!'') (CHR ''<'' # ''foo'' @ ''bar'')
               = Some (length ''a<b '')"
    by code_simp
  have clear: "no_opening_before (toolNames ?q) (buffer ?q @ ''<foobar x=1>{}</foobar>!'')
                 (length ''a<b '')"
    by code_simp
  have rest: "PushText_loop \<lparr>toolNames = ?names, buffer = ''!''\<rparr> ctr rs
      = Inr (rs @ [Text ''!''], \<lparr>toolNames = ?names, buffer = []\<rparr>, ctr)" for ctr rs
    using PushText_loop_no_lt [of "\<lparr>toolNames = ?names, buffer = ''!''\<rparr>" ctr rs] by simp
  note A = boundary_precision [OF h1 h2 h3 h4, where i = 4 and name = "''foobar''"
      and attrs = "'' x=1''" and body = "''{}''" and post = "''!''" and m = "Some []"
      and ctr = 0 and results = "[]"]
  note B = boundary_precision [OF k1 k2 h3 k4, where chunk = "''<foobar x=1>{}</foobar>!''"
      and pre = "''a<b ''" and attrs = "'' x=1''" and body = "''{}''" and post = "''!''"
      and m = "Some []" and ctr = 0]
  from A f pr have a1: "''foobar'' \<noteq> ''foo''"
    by blast
  from A f d v at b own dec
  have "PushText_loop ?p 0 [] =
      PushText_loop (?p\<lparr>buffer := ''!''\<rparr>) (0 + 1)
        ((if 0 < (4 :: nat) then [] @ [Text (take 4 (buffer ?p))] else [])
         @ [Tool (''foo'' @ ''bar'') (Some [])])"
    by blast
  then have a3: "PushText_loop ?p 0 [] =
      Inr ([Text ''a<b '', Tool ''foobar'' (Some []), Text ''!''],
           \<lparr>toolNames = ?names, buffer = []\<rparr>, 1)"
    by (simp add: rest)
  from B t buf v at b own dec idx clear
  have "PushText 0 ?q ''<foobar x=1>{}</foobar>!'' =
      (case PushText_loop (?q\<lparr>buffer := ''!''\<rparr>) (0 + 1) [] of
         Inl e \<Rightarrow> Inl e
       | Inr (rest, p', ctr') \<Rightarrow>
           Inr ((if ''a<b '' = [] then [] else [Text ''a<b ''])
                @ Tool (''foo'' @ ''bar'') (Some []) # rest, p', ctr'))"
    by blast
  then have a4: "PushText 0 ?q ''<foobar x=1>{}</foobar>!'' =
      Inr ([Text ''a<b '', Tool ''foobar'' (Some []), Text ''!''],
           \<lparr>toolNames = ?names, buffer = []\<rparr>, 1)"
    by (simp add: rest)
  have idx': "Index ?buf ''<foobar'' = Some 4"
    by code_simp
  have clear': "no_opening_before ?names ?buf 4"
    by code_simp
  from h3 h4 f pr acc a1 d v at b own dec a3 idx' clear' a4 show ?thesis
    by simp
qed

text \<open>
  The claim as stated (every known-name set, every input that holds the extension's
  complete element) fails in these cases.

  \<^item> The extension goes on with a boundary character: with the names \<open>foo\<close> and
    \<open>foo bar\<close> both opening tags are accepted at index 0 of
    \<open><foo bar>{}</foo bar>\<close>; when the loop meets \<open>foo\<close> first (Go ranges over the
    map in any order) the element is cut as an element of \<open>foo\<close>, does not decode,
    and comes out as text.

  \<^item> The extension is not well-formed UTF-8: decoding panics.

  \<^item> With the names \<open>foo\<close> and \<open>foobar\<close>: in \<open><foobarx><foobar>{}</foobar>\<close> the
    first occurrence of \<open><foobar\<close> is rejected and the element behind it is never
    examined (the defect of claim C2), so all is text; in \<open><foo <foobar>{}</foobar>\<close>
    the shorter name has opened before the element and takes it into its own span,
    which does not decode; a form feed behind the name is white space for the
    decoder and no boundary character for the locator; a payload that holds
    \<open></foobar>\<close> in a string is cut there; and a payload that is no object, such as
    \<open>[]\<close>, does not decode to an argument mapping.
\<close>

theorem boundary_precision_fails:
  "PushText 0 \<lparr>toolNames = [''foo'', ''foo bar''], buffer = []\<rparr> ''<foo bar>{}</foo bar>''
     = Inr ([Text ''<foo bar>{}</foo bar>''], \<lparr>toolNames = [''foo'', ''foo bar''], buffer = []\<rparr>, 0)
   \<and> findNextToolStartIndex \<lparr>toolNames = [''foo'', ''foo bar''], buffer = ''<foo bar>{}</foo bar>''\<rparr>
     = Some (0, ''foo'')
   \<and> PushText 0 \<lparr>toolNames = [''foo'', ''foo'' @ [CHR 0xFF]], buffer = []\<rparr>
         (element (''foo'' @ [CHR 0xFF]) [] ''{}'')
     = Inl (RegexpCompileError (''foo'' @ [CHR 0xFF]))
   \<and> PushText 0 \<lparr>toolNames = [''foo'', ''foobar''], buffer = []\<rparr>
         ''<foobarx><foobar>{}</foobar>''
     = Inr ([Text ''<foobarx><foobar>{}</foobar>''],
            \<lparr>toolNames = [''foo'', ''foobar''], buffer = []\<rparr>, 0)
   \<and> PushText 0 \<lparr>toolNames = [''foo'', ''foobar''], buffer = []\<rparr>
         ''<foo <foobar>{}</foobar>''
     = Inr ([Text ''<foo <foobar>{}</foobar>''],
            \<lparr>toolNames = [''foo'', ''foobar''], buffer = []\<rparr>, 0)
   \<and> PushText 0 \<lparr>toolNames = [''foo'', ''foobar''], buffer = []\<rparr>
         (element ''foobar'' [CHR 0x0C] ''{}'')
     = Inr ([Text (element ''foobar'' [CHR 0x0C] ''{}'')],
            \<lparr>toolNames = [''foo'', ''foobar''], buffer = []\<rparr>, 0)
   \<and> PushText 0 \<lparr>toolNames = [''foo'', ''foobar''], buffer = []\<rparr>
         (element ''foobar'' [] (''{'' @ [CHR 0x22] @ ''a'' @ [CHR 0x22] @ '':'' @ [CHR 0x22]
                                  @ ''</foobar>'' @ [CHR 0x22] @ ''}''))
     = Inr ([Text (''<foobar>{'' @ [CHR 0x22] @ ''a'' @ [CHR 0x22] @ '':'' @ [CHR 0x22]
                   @ ''</foobar>''),
             Text ([CHR 0x22] @ ''}</foobar>'')],
            \<lparr>toolNames = [''foo'', ''foobar''], buffer = []\<rparr>, 0)
   \<and> PushText 0 \<lparr>toolNames = [''foo'', ''foobar''], buffer = []\<rparr> ''<foobar>[]</foobar>''
     = Inr ([Text ''<foobar>[]</foobar>''],
            \<lparr>toolNames = [''foo'', ''foobar''], buffer = []\<rparr>, 0)"
  by code_simp

section \<open>Where the code departs from the specification\<close>

text \<open>
  Claim C2. \<open>findNextToolStartIndex\<close> looks at the first occurrence of \<open><name\<close> only
  (\<open>strings.Index\<close>); when the boundary rule rejects it, the loop goes on to the next
  name and later occurrences of the same name are never examined. With the one known
  name \<open>foo\<close> and the buffer \<open><foox><foo>{}</foo>\<close> the function finds nothing,
  although \<open><foo\<close> opens at index 6 followed by \<open>>\<close>.
\<close>

theorem locator_misses_later_occurrence:
  "findNextToolStartIndex \<lparr>toolNames = [''foo''], buffer = ''<foox><foo>{}</foo>''\<rparr> = None
   \<and> spec_earliest_open [''foo''] ''<foox><foo>{}</foo>'' = Some 6"
  by code_simp

text \<open>
  Claim C1. The same defect makes the output depend on the chunking: pushed in two
  chunks, the text \<open><foox <foo>{}</foo>\<close> yields a text segment and a tool segment;
  pushed in one chunk, it yields one text segment.
\<close>

theorem chunking_changes_output:
  "observable (projr (run_stream [''foo''] [''<foox '', ''<foo>{}</foo>'']))
      = [Text ''<foox '', Tool ''foo'' (Some [])]
   \<and> observable (projr (run_stream [''foo''] [''<foox <foo>{}</foo>'']))
      = [Text ''<foox <foo>{}</foo>'']
   \<and> isl (run_stream [''foo''] [''<foox '', ''<foo>{}</foo>'']) = False
   \<and> isl (run_stream [''foo''] [''<foox <foo>{}</foo>'']) = False"
  by code_simp

text \<open>
  Claim C3. \<open>TryParseMcpToolCallXml\<close> slices the text between the two matches without
  checking that the opening match ends before the closing match begins. For the span
  \<open><foo x</foo>\<close> the opening pattern matches all twelve bytes (the attributes run to
  the only \<open>>\<close>) and the closing pattern matches from index 6, so the slice
  \<open>xmlText[12:6]\<close> panics, and \<open>PushText\<close> with it.
\<close>

theorem PushText_panics:
  "PushText 0 (NewXmlStreamParser [''foo'']) ''<foo x</foo>'' = Inl (SliceBoundsOutOfRange 12 6)"
  by code_simp

section \<open>Further properties\<close>

lemma find_start_loop_min:
  "find_start_loop buf names best = Some (i, n) \<Longrightarrow>
   (\<forall>m \<in> set names. \<forall>j. candidate buf m = Some j \<longrightarrow> i \<le> j)
   \<and> (\<forall>b x. best = Some (b, x) \<longrightarrow> i \<le> b)"
proof (induction names arbitrary: best)
  case Nil
  then show ?case by simp
next
  case (Cons m names)
  let ?best = "case candidate buf m of
          None \<Rightarrow> best
        | Some idx \<Rightarrow>
            if (case best of None \<Rightarrow> True | Some (b, _) \<Rightarrow> idx < b) then Some (idx, m)
            else best"
  from Cons.prems have "find_start_loop buf names ?best = Some (i, n)"
    by (simp only: find_start_loop_Cons)
  from Cons.IH [OF this]
  have rest: "\<forall>m \<in> set names. \<forall>j. candidate buf m = Some j \<longrightarrow> i \<le> j"
    and b: "\<forall>b x. ?best = Some (b, x) \<longrightarrow> i \<le> b"
    by simp_all
  from b have "\<forall>j. candidate buf m = Some j \<longrightarrow> i \<le> j"
    by (cases best) (auto split: option.splits if_splits prod.splits)
  moreover from b have "\<forall>b x. best = Some (b, x) \<longrightarrow> i \<le> b"
    by (cases "candidate buf m") (auto split: if_splits)
  ultimately show ?case
    using rest by simp
qed

lemma find_start_loop_None:
  "find_start_loop buf names best = None \<longleftrightarrow>
   best = None \<and> (\<forall>m \<in> set names. candidate buf m = None)"
proof (induction names arbitrary: best)
  case Nil
  then show ?case by simp
next
  case (Cons m names)
  show ?case
    unfolding find_start_loop_Cons Cons.IH
    by (cases best; cases "candidate buf m") auto
qed

text \<open>
  What \<open>findNextToolStartIndex\<close> computes. It finds nothing exactly when no known
  name has a first occurrence of its opening tag that the boundary rule accepts; and
  when it returns an index and a name, the index is where that name's opening tag
  first occurs, the boundary rule accepts it there, and no known name's first
  occurrence is accepted at a smaller index. The index therefore does not depend on
  the order in which the names are visited.
\<close>

theorem locator_result:
  "(findNextToolStartIndex p = None \<longleftrightarrow>
      list_all (\<lambda>name. candidate (buffer p) name = None) (toolNames p))
   \<and> (findNextToolStartIndex p = Some (i, name) \<longrightarrow>
        name \<in> set (toolNames p) \<and> candidate (buffer p) name = Some i
        \<and> (\<forall>m \<in> set (toolNames p). \<forall>j. candidate (buffer p) m = Some j \<longrightarrow> i \<le> j))"
  using find_start_loop_origin [of "buffer p" "toolNames p" None i name]
    find_start_loop_min [of "buffer p" "toolNames p" None i name]
  by (auto simp: findNextToolStartIndex_def find_start_loop_None list_all_iff)

theorem locator_result_witness:
  "findNextToolStartIndex \<lparr>toolNames = [''foo'', ''bar''], buffer = ''x <bar> <foo>''\<rparr>
     = Some (2, ''bar'') \<and>
   ''bar'' \<in> set [''foo'', ''bar''] \<and>
   candidate ''x <bar> <foo>'' ''bar'' = Some 2 \<and>
   candidate ''x <bar> <foo>'' ''foo'' = Some 8"
proof -
  have f: "findNextToolStartIndex \<lparr>toolNames = [''foo'', ''bar''], buffer = ''x <bar> <foo>''\<rparr>
     = Some (2, ''bar'')"
    by code_simp
  have c: "candidate ''x <bar> <foo>'' ''foo'' = Some 8"
    by code_simp
  from locator_result [of "\<lparr>toolNames = [''foo'', ''bar''], buffer = ''x <bar> <foo>''\<rparr>" 2 "''bar''"]
    f c
  show ?thesis
    by simp
qed

text \<open>
  Malformed payloads (testable property 3 of the specification). For every non-empty
  tool name that is well-formed UTF-8 and every complete element whose trimmed
  interior is not empty and does not decode, \<open>TryParseMcpToolCallXml\<close> returns
  not-matched without minting an identifier; when the element is pushed into a parser
  with an empty buffer and the locator hands it over whole, \<open>PushText\<close> yields
  exactly one text segment, the element itself.
\<close>

theorem malformed_payload_is_text:
  assumes "name \<noteq> []" "ValidString name" "attributes attrs"
    and "TrimSpace body \<noteq> []" "Unmarshal (TrimSpace body) = Inl ()"
  shows "TryParseMcpToolCallXml ctr (element name attrs body) name = Inr (None, ctr)
         \<and> (buffer p = []
              \<and> findNextToolStartIndex (p\<lparr>buffer := element name attrs body\<rparr>) = Some (0, name)
              \<and> findCloseTagEndIndex (p\<lparr>buffer := element name attrs body\<rparr>) name
                  = Some (length (element name attrs body))
             \<longrightarrow> PushText ctr p (element name attrs body)
                   = Inr ([Text (element name attrs body)], p, ctr))"
proof -
  from assms have t: "TryParseMcpToolCallXml ctr (element name attrs body) name = Inr (None, ctr)"
    by (simp add: TryParse_element)
  moreover have "PushText ctr p (element name attrs body) = Inr ([Text (element name attrs body)], p, ctr)"
    if "buffer p = []"
      "findNextToolStartIndex (p\<lparr>buffer := element name attrs body\<rparr>) = Some (0, name)"
      "findCloseTagEndIndex (p\<lparr>buffer := element name attrs body\<rparr>) name
         = Some (length (element name attrs body))"
    using PushText_whole_element [OF that(1) _ assms(1) that(2,3) t]
    by (simp add: element_def)
  ultimately show ?thesis
    by simp
qed

theorem malformed_payload_is_text_witness:
  "''tool'' \<noteq> [] \<and> ValidString ''tool'' \<and> attributes [] \<and>
   TrimSpace ''{not json}'' \<noteq> [] \<and> Unmarshal (TrimSpace ''{not json}'') = Inl () \<and>
   buffer (NewXmlStreamParser [''tool'']) = [] \<and>
   findNextToolStartIndex
     (NewXmlStreamParser [''tool'']\<lparr>buffer := element ''tool'' [] ''{not json}''\<rparr>)
     = Some (0, ''tool'') \<and>
   findCloseTagEndIndex
     (NewXmlStreamParser [''tool'']\<lparr>buffer := element ''tool'' [] ''{not json}''\<rparr>) ''tool''
     = Some (length (element ''tool'' [] ''{not json}'')) \<and>
   TryParseMcpToolCallXml 0 (element ''tool'' [] ''{not json}'') ''tool'' = Inr (None, 0) \<and>
   PushText 0 (NewXmlStreamParser [''tool'']) (element ''tool'' [] ''{not json}'')
     = Inr ([Text ''<tool>{not json}</tool>''], NewXmlStreamParser [''tool''], 0)"
proof -
  have h1: "''tool'' \<noteq> []" by simp
  have h2: "ValidString ''tool''" by code_simp
  have h3: "attributes []" by (simp add: attributes_def)
  have h4: "TrimSpace ''{not json}'' \<noteq> []" by code_simp
  have h5: "Unmarshal (TrimSpace ''{not json}'') = Inl ()" by code_simp
  have h6: "buffer (NewXmlStreamParser [''tool'']) = []" by code_simp
  have h7: "findNextToolStartIndex
      (NewXmlStreamParser [''tool'']\<lparr>buffer := element ''tool'' [] ''{not json}''\<rparr>)
      = Some (0, ''tool'')"
    by code_simp
  have h8: "findCloseTagEndIndex
      (NewXmlStreamParser [''tool'']\<lparr>buffer := element ''tool'' [] ''{not json}''\<rparr>) ''tool''
      = Some (length (element ''tool'' [] ''{not json}''))"
    by code_simp
  have e: "element ''tool'' [] ''{not json}'' = ''<tool>{not json}</tool>''"
    by (simp add: element_def)
  from malformed_payload_is_text [OF h1 h2 h3 h4 h5, of 0 "NewXmlStreamParser [''tool'']"] h6 h7 h8
  show ?thesis
    using h1 h2 h3 h4 h5 e by simp
qed

text \<open>
  A tag split across two chunks (testable property 5): \<open>hello <to\<close> and then
  \<open>ol>{"a":1}</tool>\<close> give the text \<open>hello \<close> and one tool segment with the
  argument \<open>a\<close>; \<open><to\<close> is never emitted as text.
\<close>

theorem split_tag_across_chunks:
  "run_stream [''tool''] [''hello <to'', ''ol>{'' @ [CHR 0x22] @ ''a'' @ [CHR 0x22] @ '':1}</tool>'']
     = Inr [Text ''hello '', Tool ''tool'' (Some [(''a'', JNumber ''1'')])]"
  by code_simp

text \<open>An element of an unknown name is text (testable property 6).\<close>

theorem unknown_tag_is_text:
  "run_stream [''tool''] [''see <other>x</other>''] = Inr [Text ''see <other>x</other>'']"
  by code_simp

text \<open>
  A partial tag is held back by \<open>PushText\<close> and released by \<open>Flush\<close> (testable
  property 7).
\<close>

theorem flush_releases_partial_tag:
  "PushText 0 (NewXmlStreamParser [''tool'']) ''<to''
     = Inr ([], \<lparr>toolNames = [''tool''], buffer = ''<to''\<rparr>, 0)
   \<and> run_stream [''tool''] [''<to''] = Inr [Text ''<to'']"
  by code_simp

end
